theory Spec2Isabelle
  imports Main "HOL-Library.Word"
begin

section \<open>Data\<close>

text \<open>
  Go strings are byte sequences and \<open>len\<close> counts bytes, so a Go string is a
  \<^typ>\<open>string\<close> (a list of 8-bit characters) and \<open>len\<close> is \<^const>\<open>length\<close>.
\<close>

text \<open>
  The health check policy and the service that \<open>Clustername\<close> reads.  Their
  declarations are not part of the sources; the fields are the ones the function
  reads.  The two durations are converted with \<open>time.Duration(...)\<close> and the two
  counts and the port with \<open>int(...)\<close>: the seconds are signed 64-bit integers, the
  counts unsigned 32-bit integers and the port a signed 32-bit integer, as machine
  words.  A nil \<open>*HealthCheck\<close> is \<open>None\<close>.
\<close>

record HealthCheck =
  hc_Path :: string
  IntervalSeconds :: "64 word"
  TimeoutSeconds :: "64 word"
  UnhealthyThresholdCount :: "32 word"
  HealthyThresholdCount :: "32 word"

record Service =
  svc_Namespace :: string
  svc_Name :: string
  Port :: "32 word"
  Protocol :: string
  LoadBalancerStrategy :: string
  HealthCheck :: "HealthCheck option"

text \<open>
  The Kubernetes objects the ingress processor reads (\<open>k8s.io/api/networking/v1beta1\<close>
  and \<open>k8s.io/apimachinery\<close>), with the fields it reads.  A nil \<open>*IngressBackend\<close> and a
  nil \<open>*HTTPIngressRuleValue\<close> are \<open>None\<close>; the latter's only field is \<open>Paths\<close>.
\<close>

record NamespacedName =
  nn_Namespace :: string
  nn_Name :: string

datatype IntOrString = IntVal "32 word" | StrVal string

record IngressBackend =
  ServiceName :: string
  ServicePort :: IntOrString

record HTTPIngressPath =
  Path :: string
  Backend :: IngressBackend

record IngressRule =
  Host :: string
  HTTP :: "HTTPIngressPath list option"

record IngressTLS =
  Hosts :: "string list"
  SecretName :: string

record IngressSpec =
  spec_Backend :: "IngressBackend option"
  TLS :: "IngressTLS list"
  Rules :: "IngressRule list"

record Ingress =
  Name :: string
  Namespace :: string
  Annotations :: "(string \<times> string) list"
  Spec :: IngressSpec

text \<open>
  The graph (package \<open>dag\<close>).  The timeout policy, the retry policy, the secret and the
  TLS protocol version are opaque to the processor: they are the type parameters \<open>'p\<close>,
  \<open>'q\<close>, \<open>'s\<close> and \<open>'v\<close>.  A \<open>SecureVirtualHost\<close> embeds a \<open>VirtualHost\<close>; its two own
  fields hold \<open>None\<close> until the processor assigns them.
\<close>

datatype MatchCondition = PrefixMatchCondition string | RegexMatchCondition string

record Cluster =
  Upstream :: Service
  cluster_Protocol :: string

record ('p, 'q) Route =
  PathMatchCondition :: MatchCondition
  Clusters :: "Cluster list"
  HTTPSUpgrade :: bool
  Websocket :: bool
  TimeoutPolicy :: 'p
  RetryPolicy :: 'q

record ('p, 'q) VirtualHost =
  vh_Name :: string
  routes :: "('p, 'q) Route list"

record ('s, 'v, 'p, 'q) SecureVirtualHost = "('p, 'q) VirtualHost" +
  MinTLSVersion :: "'v option"
  Secret :: "'s option"

text \<open>
  A diagnostic, as \<open>WithError(err).WithField("name", ...).WithField("namespace", ...).
  WithField("secret", ...).Error(msg)\<close> emits it.
\<close>

record LogEntry =
  log_error :: "string option"
  log_name :: string
  log_namespace :: string
  log_secret :: NamespacedName
  log_message :: string

text \<open>
  The builder's state: the two maps of virtual hosts and the diagnostics emitted so far.
\<close>

record ('s, 'v, 'p, 'q) Builder =
  virtualhosts :: "string \<rightharpoonup> ('p, 'q) VirtualHost"
  securevirtualhosts :: "string \<rightharpoonup> ('s, 'v, 'p, 'q) SecureVirtualHost"
  diagnostics :: "LogEntry list"

text \<open>
  What the processor consumes and the sources do not contain: the snapshot
  (\<open>Source.ingresses\<close>, enumerated in some order, \<open>Source.LookupSecret\<close> with the validator
  \<open>validSecret\<close>, where \<open>Inl\<close> is the error, and \<open>Source.DelegationPermitted\<close>), the builder's
  \<open>lookupService\<close> (\<open>None\<close> is the error), \<open>k8s.NamespacedNameFrom\<close> with the default
  namespace, and the functions of the \<open>annotation\<close> package together with
  \<open>ingressTimeoutPolicy\<close> and \<open>ingressRetryPolicy\<close>.  \<open>WebsocketRoutes\<close> is the map it
  returns, read with Go's lookup (\<open>False\<close> for an absent key).
\<close>

record ('s, 'v, 'p, 'q) Env =
  ingresses :: "Ingress list"
  LookupSecret :: "NamespacedName \<Rightarrow> string + 's"
  DelegationPermitted :: "NamespacedName \<Rightarrow> string \<Rightarrow> bool"
  lookupService :: "NamespacedName \<Rightarrow> IntOrString \<Rightarrow> Service option"
  NamespacedNameFrom :: "string \<Rightarrow> string \<Rightarrow> NamespacedName"
  TLSRequired :: "Ingress \<Rightarrow> bool"
  HTTPAllowed :: "Ingress \<Rightarrow> bool"
  WebsocketRoutes :: "Ingress \<Rightarrow> string \<Rightarrow> bool"
  CompatAnnotation :: "Ingress \<Rightarrow> string \<Rightarrow> string"
  annotation_MinTLSVersion :: "string \<Rightarrow> 'v"
  ingressTimeoutPolicy :: "Ingress \<Rightarrow> 'p"
  ingressRetryPolicy :: "Ingress \<Rightarrow> 'q"

section \<open>Naming: internal/envoy/cluster.go\<close>

text \<open>
  Go's \<open>int\<close> is a 64-bit signed integer.  The only arithmetic \<open>Hashname\<close> and
  \<open>truncate\<close> perform on it is comparison, division by a slice length and subtraction
  of a small length from a larger value, none of which can overflow, so the bound is an
  \<^typ>\<open>int\<close> here.  Negative bounds are kept: they make slice expressions panic.
\<close>

datatype panic = SliceBoundsOutOfRange | IntegerDivideByZero

text \<open>The slice expression \<open>x[:n]\<close>: it panics unless \<open>0 \<le> n \<le> len(x)\<close>.\<close>

definition slice_to :: "string \<Rightarrow> int \<Rightarrow> panic + string" where
  "slice_to x n =
     (if n < 0 \<or> int (length x) < n then Inl SliceBoundsOutOfRange
      else Inr (take (nat n) x))"

text \<open>Integer division \<open>a / b\<close> of Go: it truncates towards zero and panics on a zero divisor.\<close>

definition go_quo :: "int \<Rightarrow> int \<Rightarrow> panic + int" where
  "go_quo a b =
     (if b = 0 then Inl IntegerDivideByZero
      else Inr (sgn a * sgn b * (\<bar>a\<bar> div \<bar>b\<bar>)))"

text \<open>\<open>func min(a, b int) int\<close>\<close>

definition min_int :: "int \<Rightarrow> int \<Rightarrow> int" where
  "min_int a b = (if a > b then b else a)"

text \<open>\<open>strings.Join(s, "/")\<close>\<close>

fun Join :: "string list \<Rightarrow> string" where
  "Join [] = []"
| "Join [x] = x"
| "Join (x # y # ys) = x @ ''/'' @ Join (y # ys)"

text \<open>
  \<open>func truncate(l int, s, suffix string) string\<close>, with its three branches in the
  source's order.
\<close>

definition truncate :: "int \<Rightarrow> string \<Rightarrow> string \<Rightarrow> panic + string" where
  "truncate l s suffix =
     (if l \<ge> int (length s) then Inr s
      else if l \<le> int (length suffix)
        then slice_to suffix (min_int l (int (length suffix)))
      else (case slice_to s (l - int (length suffix) - 1) of
              Inl e \<Rightarrow> Inl e
            | Inr p \<Rightarrow> Inr (p @ ''-'' @ suffix)))"

text \<open>The constant \<open>shorthash\<close> of \<open>Hashname\<close>.\<close>

definition shorthash :: int where
  "shorthash = 6"

text \<open>
  The loop \<open>for n := len(s) - 1; n >= 0; n--\<close> of \<open>Hashname\<close>.  The counter \<open>k\<close> is
  \<open>n + 1\<close>, the number of segments not yet visited.  The slice \<open>s\<close> is the caller's:
  the assignment \<open>s[n] = ...\<close> is visible to the caller, so the loop returns the slice
  as it leaves it, together with the value returned inside the loop (\<open>Some r\<close>), the
  fact that the loop ran to its end (\<open>None\<close>), or the panic.
\<close>

fun Hashname_loop :: "int \<Rightarrow> string \<Rightarrow> nat \<Rightarrow> string list \<Rightarrow> string list \<times> (panic + string option)" where
  "Hashname_loop l hash 0 s = (s, Inr None)"
| "Hashname_loop l hash (Suc n) s =
     (case go_quo l (int (length s)) of
        Inl e \<Rightarrow> (s, Inl e)
      | Inr b \<Rightarrow>
          (case slice_to hash shorthash of
             Inl e \<Rightarrow> (s, Inl e)
           | Inr h \<Rightarrow>
               (case truncate b (s ! n) h of
                  Inl e \<Rightarrow> (s, Inl e)
                | Inr t \<Rightarrow>
                    (let s' = s[n := t]; r = Join s' in
                     if l > int (length r) then (s', Inr (Some r))
                     else Hashname_loop l hash n s'))))"

text \<open>
  \<open>func Hashname(l int, s ...string) string\<close>.  The digest of the standard library,
  \<open>fmt.Sprintf("%x", sha256.Sum256([]byte(r)))\<close>, is the parameter \<open>sha256hex\<close>; the
  real one always returns 64 hexadecimal digits.  The result pairs the slice \<open>s\<close>
  after the call with the returned string or the panic.
\<close>

definition Hashname :: "(string \<Rightarrow> string) \<Rightarrow> int \<Rightarrow> string list \<Rightarrow> string list \<times> (panic + string)" where
  "Hashname sha256hex l s =
     (let r = Join s in
      if l > int (length r) then (s, Inr r)
      else
        (let hash = sha256hex r in
         case Hashname_loop l hash (length s) s of
           (s', Inl e) \<Rightarrow> (s', Inl e)
         | (s', Inr (Some r')) \<Rightarrow> (s', Inr r')
         | (s', Inr None) \<Rightarrow> (s', slice_to hash (min_int (int (length hash)) l))))"

text \<open>
  \<open>strconv.Itoa\<close>: the decimal digits of an integer, with a leading minus sign for a
  negative one.
\<close>

definition digit_char :: "nat \<Rightarrow> char" where
  "digit_char d = char_of (48 + d)"

fun utoa :: "nat \<Rightarrow> string" where
  "utoa n = (if n < 10 then [digit_char n] else utoa (n div 10) @ [digit_char (n mod 10)])"

declare utoa.simps [simp del]

definition Itoa :: "int \<Rightarrow> string" where
  "Itoa i = (if i < 0 then ''-'' @ utoa (nat (- i)) else utoa (nat i))"

text \<open>
  \<open>time.Duration(sec) * time.Second\<close>: a \<open>Duration\<close> is a signed 64-bit count of
  nanoseconds, and the product wraps around.
\<close>

definition seconds :: "64 word \<Rightarrow> 64 word" where
  "seconds sec = sec * 1000000000"

text \<open>
  The value of \<open>buf\<close> when \<open>Clustername\<close> hashes it.  \<open>Duration.String\<close> of the
  standard library is the parameter \<open>durationString\<close>.
\<close>

definition Clustername_buf :: "(64 word \<Rightarrow> string) \<Rightarrow> Service \<Rightarrow> string" where
  "Clustername_buf durationString service =
     LoadBalancerStrategy service @
     (case HealthCheck service of
        None \<Rightarrow> []
      | Some hc \<Rightarrow>
          (if 0 <s TimeoutSeconds hc then durationString (seconds (TimeoutSeconds hc)) else []) @
          (if 0 <s IntervalSeconds hc then durationString (seconds (IntervalSeconds hc)) else []) @
          (if 0 < UnhealthyThresholdCount hc then Itoa (uint (UnhealthyThresholdCount hc)) else []) @
          (if 0 < HealthyThresholdCount hc then Itoa (uint (HealthyThresholdCount hc)) else []) @
          hc_Path hc)"

text \<open>
  \<open>func Clustername(service *dag.Service) string\<close>.  The parameter \<open>sha1hex5\<close> is
  \<open>fmt.Sprintf("%x", hash[:5])\<close> of \<open>sha1.Sum([]byte(buf))\<close>, ten hexadecimal digits.
  The variadic call builds a fresh slice, so only the returned string is kept.
\<close>

definition Clustername ::
  "(string \<Rightarrow> string) \<Rightarrow> (string \<Rightarrow> string) \<Rightarrow> (64 word \<Rightarrow> string) \<Rightarrow> Service \<Rightarrow> panic + string" where
  "Clustername sha1hex5 sha256hex durationString service =
     (let buf = Clustername_buf durationString service;
          hash = sha1hex5 buf;
          ns = svc_Namespace service;
          name = svc_Name service
      in snd (Hashname sha256hex 60 [ns, name, Itoa (sint (Port service)), hash]))"

text \<open>
  Two closed forms used to state what the loop computes: the value \<open>truncate\<close> returns
  for a budget \<open>b \<ge> 0\<close>, and the slice after the segments from index \<open>j\<close> on have been
  overwritten.
\<close>

definition budgeted :: "nat \<Rightarrow> string \<Rightarrow> string \<Rightarrow> string" where
  "budgeted b h x =
     (if length x \<le> b then x
      else if b \<le> length h then take b h
      else take (b - length h - 1) x @ ''-'' @ h)"

definition truncated_from :: "nat \<Rightarrow> (string \<Rightarrow> string) \<Rightarrow> string list \<Rightarrow> string list" where
  "truncated_from j t s = take j s @ map t (drop j s)"

section \<open>The ingress processor: package dag\<close>

text \<open>\<open>strings.Contains\<close> and \<open>strings.ContainsAny\<close>, on bytes.\<close>

definition Contains :: "string \<Rightarrow> string \<Rightarrow> bool" where
  "Contains s substr =
     list_ex (\<lambda>i. take (length substr) (drop i s) = substr) [0..<Suc (length s)]"

definition ContainsAny :: "string \<Rightarrow> string \<Rightarrow> bool" where
  "ContainsAny s chars = list_ex (\<lambda>c. c \<in> set chars) s"

text \<open>
  Modelled from the spec: the builder's accessors \<open>lookupVirtualHost\<close> and
  \<open>lookupSecureVirtualHost\<close> and the method \<open>addRoute\<close> are called by the processor and
  are not part of the sources.  The spec describes the accessors as idempotent
  get-or-create accessors (one virtual host per hostname, created lazily on first
  reference) and a virtual host as owning an ordered collection of routes.  An
  accessor returns the entry and the builder, which holds the entry from then on;
  \<open>addRoute\<close> appends.
\<close>

definition lookupVirtualHost ::
  "('s, 'v, 'p, 'q) Builder \<Rightarrow> string \<Rightarrow> ('p, 'q) VirtualHost \<times> ('s, 'v, 'p, 'q) Builder" where
  "lookupVirtualHost b name =
     (case virtualhosts b name of
        Some vh \<Rightarrow> (vh, b)
      | None \<Rightarrow>
          (let vh = \<lparr>vh_Name = name, routes = []\<rparr>
           in (vh, b\<lparr>virtualhosts := (virtualhosts b)(name \<mapsto> vh)\<rparr>)))"

definition lookupSecureVirtualHost ::
  "('s, 'v, 'p, 'q) Builder \<Rightarrow> string \<Rightarrow> ('s, 'v, 'p, 'q) SecureVirtualHost \<times> ('s, 'v, 'p, 'q) Builder" where
  "lookupSecureVirtualHost b name =
     (case securevirtualhosts b name of
        Some svh \<Rightarrow> (svh, b)
      | None \<Rightarrow>
          (let svh = \<lparr>vh_Name = name, routes = [], MinTLSVersion = None, Secret = None\<rparr>
           in (svh, b\<lparr>securevirtualhosts := (securevirtualhosts b)(name \<mapsto> svh)\<rparr>)))"

definition addRoute :: "('p, 'q, 'z) VirtualHost_scheme \<Rightarrow> ('p, 'q) Route \<Rightarrow> ('p, 'q, 'z) VirtualHost_scheme" where
  "addRoute v route = v\<lparr>routes := routes v @ [route]\<rparr>"

text \<open>
  The body of the loop over \<open>tls.Hosts\<close> in \<open>computeSecureVirtualhosts\<close>: the accessor's
  entry is a pointer into the map, so the two assignments update the entry stored
  under \<open>host\<close>.
\<close>

definition computeSecureVirtualhosts_host ::
  "('s, 'v, 'p, 'q) Env \<Rightarrow> Ingress \<Rightarrow> 's \<Rightarrow> ('s, 'v, 'p, 'q) Builder \<Rightarrow> string \<Rightarrow> ('s, 'v, 'p, 'q) Builder" where
  "computeSecureVirtualhosts_host env ing sec b host =
     (case lookupSecureVirtualHost b host of
        (svhost, b') \<Rightarrow>
          b'\<lparr>securevirtualhosts := (securevirtualhosts b')(host \<mapsto>
               svhost\<lparr>Secret := Some sec,
                      MinTLSVersion := Some (annotation_MinTLSVersion env
                        (CompatAnnotation env ing ''tls-minimum-protocol-version''))\<rparr>)\<rparr>)"

text \<open>
  The body of the loop over \<open>ing.Spec.TLS\<close>.  In the second diagnostic \<open>err\<close> is the nil
  error of the lookup that succeeded.
\<close>

definition computeSecureVirtualhosts_tls ::
  "('s, 'v, 'p, 'q) Env \<Rightarrow> Ingress \<Rightarrow> ('s, 'v, 'p, 'q) Builder \<Rightarrow> IngressTLS \<Rightarrow> ('s, 'v, 'p, 'q) Builder" where
  "computeSecureVirtualhosts_tls env ing b tls =
     (let secretName = NamespacedNameFrom env (SecretName tls) (Namespace ing) in
      case LookupSecret env secretName of
        Inl err \<Rightarrow>
          b\<lparr>diagnostics := diagnostics b @
              [\<lparr>log_error = Some err, log_name = Name ing, log_namespace = Namespace ing,
                log_secret = secretName, log_message = ''unresolved secret reference''\<rparr>]\<rparr>
      | Inr sec \<Rightarrow>
          if \<not> DelegationPermitted env secretName (Namespace ing) then
            b\<lparr>diagnostics := diagnostics b @
                [\<lparr>log_error = None, log_name = Name ing, log_namespace = Namespace ing,
                  log_secret = secretName,
                  log_message = ''certificate delegation not permitted''\<rparr>]\<rparr>
          else foldl (computeSecureVirtualhosts_host env ing sec) b (Hosts tls))"

text \<open>\<open>func (p *IngressProcessor) computeSecureVirtualhosts()\<close>\<close>

definition computeSecureVirtualhosts ::
  "('s, 'v, 'p, 'q) Env \<Rightarrow> ('s, 'v, 'p, 'q) Builder \<Rightarrow> ('s, 'v, 'p, 'q) Builder" where
  "computeSecureVirtualhosts env b =
     foldl (\<lambda>b ing. foldl (computeSecureVirtualhosts_tls env ing) b (TLS (Spec ing)))
       b (ingresses env)"

text \<open>\<open>func stringOrDefault(s, def string) string\<close>\<close>

definition stringOrDefault :: "string \<Rightarrow> string \<Rightarrow> string" where
  "stringOrDefault s def = (if s = [] then def else s)"

text \<open>\<open>func httppaths(rule v1beta1.IngressRule) []v1beta1.HTTPIngressPath\<close>\<close>

definition httppaths :: "IngressRule \<Rightarrow> HTTPIngressPath list" where
  "httppaths rule = (case HTTP rule of None \<Rightarrow> [] | Some paths \<Rightarrow> paths)"

text \<open>\<open>func defaultBackendRule(be *v1beta1.IngressBackend) v1beta1.IngressRule\<close>\<close>

definition defaultBackendRule :: "IngressBackend \<Rightarrow> IngressRule" where
  "defaultBackendRule be =
     \<lparr>Host = [],
      HTTP = Some [\<lparr>Path = [],
                    Backend = \<lparr>ServiceName = ServiceName be, ServicePort = ServicePort be\<rparr>\<rparr>]\<rparr>"

text \<open>\<open>func rulesFromSpec(spec v1beta1.IngressSpec) []v1beta1.IngressRule\<close>\<close>

definition rulesFromSpec :: "IngressSpec \<Rightarrow> IngressRule list" where
  "rulesFromSpec spec =
     (let rules = Rules spec in
      case spec_Backend spec of
        Some backend \<Rightarrow> rules @ [defaultBackendRule backend]
      | None \<Rightarrow> rules)"

text \<open>
  \<open>func route(ingress *v1beta1.Ingress, path string, service *Service) *Route\<close>.  The
  source builds the route with no path match condition and assigns it in one of the
  two branches; \<open>r\<close> is the route awaiting that assignment.
\<close>

definition route :: "('s, 'v, 'p, 'q) Env \<Rightarrow> Ingress \<Rightarrow> string \<Rightarrow> Service \<Rightarrow> ('p, 'q) Route" where
  "route env ingress path service =
     (let wr = WebsocketRoutes env ingress;
          r = (\<lambda>c. \<lparr>PathMatchCondition = c,
                    Clusters = [\<lparr>Upstream = service, cluster_Protocol = Protocol service\<rparr>],
                    HTTPSUpgrade = TLSRequired env ingress,
                    Websocket = wr path,
                    TimeoutPolicy = ingressTimeoutPolicy env ingress,
                    RetryPolicy = ingressRetryPolicy env ingress\<rparr>)
      in if ContainsAny path ''^+*[]%''
         then r (RegexMatchCondition path)
         else r (PrefixMatchCondition path))"

text \<open>
  The body of the loop over \<open>httppaths(rule)\<close> in \<open>computeIngressRule\<close>, for the host the
  function has normalised.
\<close>

definition computeIngressRule_path ::
  "('s, 'v, 'p, 'q) Env \<Rightarrow> Ingress \<Rightarrow> string \<Rightarrow> ('s, 'v, 'p, 'q) Builder \<Rightarrow> HTTPIngressPath \<Rightarrow> ('s, 'v, 'p, 'q) Builder" where
  "computeIngressRule_path env ing host b httppath =
     (let path = stringOrDefault (Path httppath) ''/'';
          be = Backend httppath;
          m = \<lparr>nn_Namespace = Namespace ing, nn_Name = ServiceName be\<rparr>
      in case lookupService env m (ServicePort be) of
           None \<Rightarrow> b
         | Some s \<Rightarrow>
             (let r = route env ing path s;
                  b1 = (if TLSRequired env ing \<or> HTTPAllowed env ing
                        then (case lookupVirtualHost b host of
                                (vh, b') \<Rightarrow>
                                  b'\<lparr>virtualhosts := (virtualhosts b')(host \<mapsto> addRoute vh r)\<rparr>)
                        else b)
              in case securevirtualhosts b1 host of
                   Some svh \<Rightarrow>
                     if host \<noteq> ''*''
                     then b1\<lparr>securevirtualhosts := (securevirtualhosts b1)(host \<mapsto> addRoute svh r)\<rparr>
                     else b1
                 | None \<Rightarrow> b1))"

text \<open>
  \<open>func (p *IngressProcessor) computeIngressRule(ing *v1beta1.Ingress, rule v1beta1.IngressRule)\<close>
\<close>

definition computeIngressRule ::
  "('s, 'v, 'p, 'q) Env \<Rightarrow> Ingress \<Rightarrow> ('s, 'v, 'p, 'q) Builder \<Rightarrow> IngressRule \<Rightarrow> ('s, 'v, 'p, 'q) Builder" where
  "computeIngressRule env ing b rule =
     (let host = Host rule in
      if Contains host ''*'' then b
      else
        (let host = (if host = [] then ''*'' else host)
         in foldl (computeIngressRule_path env ing host) b (httppaths rule)))"

text \<open>\<open>func (p *IngressProcessor) computeIngresses()\<close>\<close>

definition computeIngresses ::
  "('s, 'v, 'p, 'q) Env \<Rightarrow> ('s, 'v, 'p, 'q) Builder \<Rightarrow> ('s, 'v, 'p, 'q) Builder" where
  "computeIngresses env b =
     foldl (\<lambda>b ing. foldl (computeIngressRule env ing) b (rulesFromSpec (Spec ing)))
       b (ingresses env)"

text \<open>
  \<open>func (p *IngressProcessor) Run(builder *Builder)\<close>: the two phases, on the
  builder it is handed.
\<close>

definition Run :: "('s, 'v, 'p, 'q) Env \<Rightarrow> ('s, 'v, 'p, 'q) Builder \<Rightarrow> ('s, 'v, 'p, 'q) Builder" where
  "Run env builder = computeIngresses env (computeSecureVirtualhosts env builder)"

section \<open>Notions used in the statements\<close>

text \<open>
  The routes attached to a host in one of the two maps (none when the host has no
  entry), the host a rule is processed under, the route the loop body builds for a
  path entry (\<open>None\<close> when the service does not resolve) and the routes built for a
  rule; whether a TLS block passes both checks of phase A, and whether some TLS block
  of the snapshot that passes them lists a host.
\<close>

definition routes_at :: "(string \<rightharpoonup> ('p, 'q, 'z) VirtualHost_scheme) \<Rightarrow> string \<Rightarrow> ('p, 'q) Route list" where
  "routes_at m host = (case m host of None \<Rightarrow> [] | Some v \<Rightarrow> routes v)"

definition rule_host :: "IngressRule \<Rightarrow> string" where
  "rule_host rule = (if Host rule = [] then ''*'' else Host rule)"

definition path_route :: "('s, 'v, 'p, 'q) Env \<Rightarrow> Ingress \<Rightarrow> HTTPIngressPath \<Rightarrow> ('p, 'q) Route option" where
  "path_route env ing httppath =
     map_option (route env ing (stringOrDefault (Path httppath) ''/''))
       (lookupService env \<lparr>nn_Namespace = Namespace ing, nn_Name = ServiceName (Backend httppath)\<rparr>
          (ServicePort (Backend httppath)))"

definition built_routes :: "('s, 'v, 'p, 'q) Env \<Rightarrow> Ingress \<Rightarrow> IngressRule \<Rightarrow> ('p, 'q) Route list" where
  "built_routes env ing rule = List.map_filter (path_route env ing) (httppaths rule)"

definition tls_ok :: "('s, 'v, 'p, 'q) Env \<Rightarrow> Ingress \<Rightarrow> IngressTLS \<Rightarrow> bool" where
  "tls_ok env ing tls =
     (let secretName = NamespacedNameFrom env (SecretName tls) (Namespace ing) in
      (case LookupSecret env secretName of Inl err \<Rightarrow> False | Inr sec \<Rightarrow> True) \<and>
      DelegationPermitted env secretName (Namespace ing))"

definition tls_host_resolved :: "('s, 'v, 'p, 'q) Env \<Rightarrow> string \<Rightarrow> bool" where
  "tls_host_resolved env host =
     list_ex (\<lambda>ing. list_ex (\<lambda>tls. tls_ok env ing tls \<and> host \<in> set (Hosts tls)) (TLS (Spec ing)))
       (ingresses env)"

text \<open>
  Two relations between builder states, used in the proofs: the second state has the
  same secure hosts as the first, the same routes on the secure default host and at
  least the routes of the first on every host; and the two states hold the same maps.
\<close>

definition grows :: "('s, 'v, 'p, 'q) Builder \<Rightarrow> ('s, 'v, 'p, 'q) Builder \<Rightarrow> bool" where
  "grows b b' \<longleftrightarrow>
     dom (securevirtualhosts b') = dom (securevirtualhosts b) \<and>
     routes_at (securevirtualhosts b') ''*'' = routes_at (securevirtualhosts b) ''*'' \<and>
     (\<forall>h. set (routes_at (securevirtualhosts b) h) \<subseteq> set (routes_at (securevirtualhosts b') h)) \<and>
     (\<forall>h. set (routes_at (virtualhosts b) h) \<subseteq> set (routes_at (virtualhosts b') h))"

definition same_hosts :: "('s, 'v, 'p, 'q) Builder \<Rightarrow> ('s, 'v, 'p, 'q) Builder \<Rightarrow> bool" where
  "same_hosts b b' \<longleftrightarrow>
     securevirtualhosts b = securevirtualhosts b' \<and> virtualhosts b = virtualhosts b'"

section \<open>Example inputs\<close>

text \<open>
  A table of SHA-256 digests (lower-case hexadecimal) for the strings the examples
  below hash, standing for \<open>sha256hex\<close> there.
\<close>

definition sha256hex_table :: "string \<Rightarrow> string" where
  "sha256hex_table r =
     (if r = ''abc'' then ''ba7816bf8f01cfea414140de5dae2223b00361a396177a9cb410ff61f20015ad''
      else if r = ''ab/cd'' then ''d79e196d2b0416445bd5a9668f0afed78d9ee618993724777043c0249ae01112''
      else if r = ''abcdefghijklmnopqrst/b/c''
        then ''e0aaeec72f8b16b2726219a81fa716cf8125546183a8e46f270c1305bc3db153''
      else if r = ''b/c/abcdefghijklmnopqrst''
        then ''eb94cb41c554a329717a709848911b5335e26618d32300add6a93166fb6d99ae''
      else if r = ''default/ingress-conformance-echo-backend-blue1/80/bc862a33ca''
        then ''96b39c5c8ffdd60251bf058e45897c722c1b059787922405a190ee563f2d7238''
      else replicate 64 (CHR ''0''))"

text \<open>
  The same for the first five bytes of SHA-1 digests and for \<open>Duration.String\<close>, on the
  values the examples use, and a service with a health check whose interval varies.
\<close>

definition sha1hex5_table :: "string \<Rightarrow> string" where
  "sha1hex5_table buf =
     (if buf = ''/healthz'' then ''bc862a33ca''
      else if buf = ''1s/healthz'' then ''3607c5a504''
      else if buf = ''2s/healthz'' then ''9d9166f46b''
      else replicate 10 (CHR ''0''))"

definition durationString_table :: "64 word \<Rightarrow> string" where
  "durationString_table d =
     (if d = 1000000000 then ''1s'' else if d = 2000000000 then ''2s'' else ''0s'')"

definition service_example :: "64 word \<Rightarrow> Service" where
  "service_example i =
     \<lparr>svc_Namespace = ''default'', svc_Name = ''echo'', Port = 80, Protocol = [],
      LoadBalancerStrategy = [],
      HealthCheck = Some \<lparr>hc_Path = ''/healthz'', IntervalSeconds = i, TimeoutSeconds = 0,
        UnhealthyThresholdCount = 0, HealthyThresholdCount = 0\<rparr>\<rparr>"

text \<open>
  A snapshot environment for the examples: one secret named \<open>cert\<close>, delegation within
  a namespace, one service named \<open>echo\<close>, and the two annotations that decide
  \<open>TLSRequired\<close> and \<open>HTTPAllowed\<close>; three ingresses and the empty builder.
\<close>

definition example_service :: Service where
  "example_service =
     \<lparr>svc_Namespace = ''default'', svc_Name = ''echo'', Port = 80, Protocol = [],
      LoadBalancerStrategy = [], HealthCheck = None\<rparr>"

definition example_env :: "Ingress list \<Rightarrow> (string, string, unit, unit) Env" where
  "example_env ings =
     \<lparr>ingresses = ings,
      LookupSecret = (\<lambda>n. if nn_Name n = ''cert'' then Inr ''cert'' else Inl ''secret not found''),
      DelegationPermitted = (\<lambda>n ns. nn_Namespace n = ns),
      lookupService = (\<lambda>n port. if nn_Name n = ''echo'' then Some example_service else None),
      NamespacedNameFrom = (\<lambda>name ns. \<lparr>nn_Namespace = ns, nn_Name = name\<rparr>),
      TLSRequired = (\<lambda>ing. map_of (Annotations ing) ''ingress.kubernetes.io/force-ssl-redirect'' = Some ''true''),
      HTTPAllowed = (\<lambda>ing. map_of (Annotations ing) ''kubernetes.io/ingress.allow-http'' \<noteq> Some ''false''),
      WebsocketRoutes = (\<lambda>ing path. False),
      CompatAnnotation = (\<lambda>ing key. case map_of (Annotations ing) key of None \<Rightarrow> [] | Some v \<Rightarrow> v),
      annotation_MinTLSVersion = (\<lambda>raw. raw),
      ingressTimeoutPolicy = (\<lambda>ing. ()),
      ingressRetryPolicy = (\<lambda>ing. ())\<rparr>"

definition echo_backend :: IngressBackend where
  "echo_backend = \<lparr>ServiceName = ''echo'', ServicePort = IntVal 80\<rparr>"

definition example_default_backend :: "(string \<times> string) list \<Rightarrow> Ingress" where
  "example_default_backend annotations =
     \<lparr>Name = ''fallback'', Namespace = ''default'', Annotations = annotations,
      Spec = \<lparr>spec_Backend = Some echo_backend, TLS = [], Rules = []\<rparr>\<rparr>"

definition example_rule :: IngressRule where
  "example_rule =
     \<lparr>Host = ''a.example.com'',
      HTTP = Some [\<lparr>Path = ''/v[0-9]+'', Backend = echo_backend\<rparr>,
                   \<lparr>Path = ''/gone'', Backend = \<lparr>ServiceName = ''nosuch'', ServicePort = IntVal 80\<rparr>\<rparr>]\<rparr>"

definition example_tls_ingress :: Ingress where
  "example_tls_ingress =
     \<lparr>Name = ''web'', Namespace = ''default'', Annotations = [],
      Spec = \<lparr>spec_Backend = None,
        TLS = [\<lparr>Hosts = [''b.example.com''], SecretName = ''missing''\<rparr>,
               \<lparr>Hosts = [''*.example.com'', ''a.example.com''], SecretName = ''cert''\<rparr>],
        Rules = [example_rule, \<lparr>Host = [], HTTP = Some [\<lparr>Path = [], Backend = echo_backend\<rparr>]\<rparr>]\<rparr>\<rparr>"

definition emptyBuilder :: "(string, string, unit, unit) Builder" where
  "emptyBuilder = \<lparr>virtualhosts = Map.empty, securevirtualhosts = Map.empty, diagnostics = []\<rparr>"

section \<open>Properties of the naming functions\<close>

lemma go_quo_nonneg: "0 \<le> l \<Longrightarrow> 0 < n \<Longrightarrow> go_quo l (int n) = Inr (l div int n)"
  by (cases "l = 0") (simp_all add: go_quo_def)

lemma truncate_budgeted: "truncate (int b) x h = Inr (budgeted b h x)"
  by (auto simp: truncate_def budgeted_def slice_to_def min_int_def nat_diff_distrib')

lemma length_budgeted: "b < length x \<Longrightarrow> length h = 6 \<Longrightarrow> length (budgeted b h x) = b"
  by (auto simp: budgeted_def)

lemma budgeted_short: "length x \<le> b \<Longrightarrow> budgeted b h x = x"
  by (simp add: budgeted_def)

lemma truncated_from_step:
  assumes "n < length s"
  shows "(truncated_from (Suc n) t s)[n := t (s ! n)] = truncated_from n t s"
    and "truncated_from (Suc n) t s ! n = s ! n"
proof -
  show "truncated_from (Suc n) t s ! n = s ! n"
    using assms by (simp add: truncated_from_def nth_append)
  have "drop n s = s ! n # drop (Suc n) s"
    using assms by (simp add: Cons_nth_drop_Suc)
  moreover have "take (Suc n) s = take n s @ [s ! n]"
    using assms by (simp add: take_Suc_conv_app_nth)
  ultimately show "(truncated_from (Suc n) t s)[n := t (s ! n)] = truncated_from n t s"
    using assms by (simp add: truncated_from_def list_update_append)
qed

lemma length_truncated_from: "length (truncated_from k t s) = length s"
  by (simp add: truncated_from_def)

lemma truncated_from_all: "truncated_from (length s) t s = s"
  by (simp add: truncated_from_def)

text \<open>
  The loop, started after the segments from \<open>k\<close> on have been overwritten, returns at the
  largest \<open>j < k\<close> whose joined slice is strictly below the bound.
\<close>

lemma Hashname_loop_char:
  assumes "0 \<le> l" "6 \<le> length hash" "k \<le> length s"
  defines "t \<equiv> budgeted (nat (l div int (length s))) (take 6 hash)"
  shows "Hashname_loop l hash k (truncated_from k t s) =
     (case find (\<lambda>j. int (length (Join (truncated_from j t s))) < l) (rev [0..<k]) of
        Some j \<Rightarrow> (truncated_from j t s, Inr (Some (Join (truncated_from j t s))))
      | None \<Rightarrow> (truncated_from 0 t s, Inr None))"
  using assms(3)
proof (induction k)
  case 0
  then show ?case by simp
next
  case (Suc n)
  then have n: "n < length s" by simp
  have q: "go_quo l (int (length s)) = Inr (l div int (length s))"
    using assms(1) n by (intro go_quo_nonneg) auto
  have h: "slice_to hash shorthash = Inr (take 6 hash)"
    using assms(2) by (simp add: slice_to_def shorthash_def)
  have b: "int (nat (l div int (length s))) = l div int (length s)"
    using assms(1) by (simp add: div_int_pos_iff)
  have tr: "truncate (l div int (length s)) (s ! n) (take 6 hash) = Inr (t (s ! n))"
    unfolding t_def
    using truncate_budgeted [of "nat (l div int (length s))" "s ! n" "take 6 hash"] b by simp
  show ?case
    using Suc n q h tr
    by (simp add: truncated_from_step length_truncated_from Let_def)
qed

lemma Hashname_fast: "int (length (Join s)) < l \<Longrightarrow> Hashname H l s = (s, Inr (Join s))"
  by (simp add: Hashname_def)

lemma Hashname_slow:
  assumes "0 \<le> l" "\<not> int (length (Join s)) < l" "length (H (Join s)) = 64"
  defines "t \<equiv> budgeted (nat (l div int (length s))) (take 6 (H (Join s)))"
  shows "Hashname H l s =
     (case find (\<lambda>j. int (length (Join (truncated_from j t s))) < l) (rev [0..<length s]) of
        Some j \<Rightarrow> (truncated_from j t s, Inr (Join (truncated_from j t s)))
      | None \<Rightarrow> (truncated_from 0 t s, Inr (take (nat l) (H (Join s)))))"
proof -
  have loop: "Hashname_loop l (H (Join s)) (length s) s =
     (case find (\<lambda>j. int (length (Join (truncated_from j t s))) < l) (rev [0..<length s]) of
        Some j \<Rightarrow> (truncated_from j t s, Inr (Some (Join (truncated_from j t s))))
      | None \<Rightarrow> (truncated_from 0 t s, Inr None))"
    unfolding t_def
    using Hashname_loop_char [of l "H (Join s)" "length s" s] assms(1,3)
    by (simp add: truncated_from_all)
  have fin: "slice_to (H (Join s)) (min_int (int (length (H (Join s)))) l) = Inr (take (nat l) (H (Join s)))"
    using assms(1,3) by (simp add: slice_to_def min_int_def)
  show ?thesis
    using assms(2) loop fin by (simp add: Hashname_def Let_def split: option.splits)
qed

lemma find_Some_set: "find P xs = Some x \<Longrightarrow> x \<in> set xs \<and> P x"
  by (induction xs) (auto split: if_splits)

lemma find_rev_upt_Some: "find P (rev [0..<k]) = Some j \<Longrightarrow> j < k \<and> P j"
  using find_Some_set [of P "rev [0..<k]" j] by simp

lemma find_rev_upt_None: "find P (rev [0..<k]) = None \<Longrightarrow> j < k \<Longrightarrow> \<not> P j"
  by (auto simp: find_None_iff)

lemma budgeted_changed: "budgeted b h x \<noteq> x \<Longrightarrow> b < length x"
  by (auto simp: budgeted_def split: if_splits)

lemma truncated_from_nth:
  "i < length s \<Longrightarrow> truncated_from j t s ! i = (if i < j then s ! i else t (s ! i))"
  by (auto simp: truncated_from_def nth_append min_def)

text \<open>
  Outside the fast path the slice the caller sees afterwards is the original with the
  segments from some index on overwritten; the last segment is always among them.
\<close>

lemma Hashname_fst:
  assumes "0 \<le> l" "\<not> int (length (Join s)) < l" "length (H (Join s)) = 64"
  shows "\<exists>j. (s \<noteq> [] \<longrightarrow> j < length s) \<and> j \<le> length s \<and>
     fst (Hashname H l s) =
       truncated_from j (budgeted (nat (l div int (length s))) (take 6 (H (Join s)))) s"
proof -
  let ?t = "budgeted (nat (l div int (length s))) (take 6 (H (Join s)))"
  let ?P = "\<lambda>j. int (length (Join (truncated_from j ?t s))) < l"
  show ?thesis
  proof (cases "find ?P (rev [0..<length s])")
    case None
    then have "fst (Hashname H l s) = truncated_from 0 ?t s"
      using Hashname_slow [of l s H] assms by simp
    then show ?thesis by (intro exI [of _ 0]) simp
  next
    case (Some j)
    then have "fst (Hashname H l s) = truncated_from j ?t s"
      using Hashname_slow [of l s H] assms by simp
    moreover have "j < length s"
      using find_rev_upt_Some [OF Some] by simp
    ultimately show ?thesis by (intro exI [of _ j]) simp
  qed
qed

text \<open>
  For a bound \<open>l \<ge> 0\<close> and a 64-digit digest \<open>Hashname\<close> never panics, and outside the
  fast path the string it returns is no longer than \<open>l\<close>.
\<close>

lemma Hashname_length_le:
  assumes "0 \<le> l" "\<not> int (length (Join s)) < l" "length (H (Join s)) = 64"
  shows "\<exists>r. snd (Hashname H l s) = Inr r \<and> int (length r) \<le> l"
proof -
  let ?t = "budgeted (nat (l div int (length s))) (take 6 (H (Join s)))"
  let ?P = "\<lambda>j. int (length (Join (truncated_from j ?t s))) < l"
  show ?thesis
  proof (cases "find ?P (rev [0..<length s])")
    case None
    then have "snd (Hashname H l s) = Inr (take (nat l) (H (Join s)))"
      using Hashname_slow [of l s H] assms by simp
    then show ?thesis using assms(1) by simp
  next
    case (Some j)
    then have "snd (Hashname H l s) = Inr (Join (truncated_from j ?t s))"
      using Hashname_slow [of l s H] assms by simp
    moreover have "?P j"
      using find_rev_upt_Some [OF Some] by simp
    ultimately show ?thesis by simp
  qed
qed

text \<open>
  C2 (the code at the boundary).  The joined string \<open>abc\<close> has length 3, which is at
  most the bound 3, yet \<open>Hashname(3, "abc")\<close> does not return it: the test
  \<open>l > len(r)\<close> sends a joined string of exactly \<open>l\<close> bytes through the truncation loop,
  which changes nothing here, and the function returns the first three digits of the
  digest.  With the bound 60 of \<open>Clustername\<close>, four segments whose joined string has
  exactly 60 bytes come back with the name segment cut to its budget of 15 bytes.
\<close>

theorem Hashname_at_bound:
  "int (length (Join [''abc''])) \<le> 3 \<and>
   Hashname sha256hex_table 3 [''abc''] = ([''abc''], Inr ''ba7'') \<and>
   int (length (Join [''default'', ''ingress-conformance-echo-backend-blue1'', ''80'',
     ''bc862a33ca''])) \<le> 60 \<and>
   snd (Hashname sha256hex_table 60
     [''default'', ''ingress-conformance-echo-backend-blue1'', ''80'', ''bc862a33ca'']) =
     Inr ''default/ingress--96b39c/80/bc862a33ca''"
  by code_simp

text \<open>
  C5 (amended).  For a bound \<open>l \<ge> 0\<close> that the joined segments exceed, \<open>Hashname\<close>
  computes one digest of the joined string and visits the segments from last to
  first.  Each visited segment is replaced by its budgeted form for the budget
  \<open>l div (number of segments)\<close>: unchanged when it is no longer than the budget, the
  first budget-many digits of the six-digit suffix when the budget is at most six, and
  otherwise its first \<open>budget - 7\<close> bytes followed by \<open>-\<close> and the suffix.  Provided
  no joined intermediate has length exactly \<open>l\<close>, the result is the first joined
  intermediate within the bound, and the digest cut to \<open>l\<close> bytes when there is none.
\<close>

theorem Hashname_truncation_order:
  assumes "0 \<le> l" and "l < int (length (Join s))" and "length (sha256hex (Join s)) = 64"
    and "list_all (\<lambda>j. int (length (Join (truncated_from j
             (budgeted (nat (l div int (length s))) (take 6 (sha256hex (Join s)))) s))) \<noteq> l)
           [0..<length s]"
  shows "snd (Hashname sha256hex l s) =
     Inr (case find (\<lambda>j. int (length (Join (truncated_from j
                  (budgeted (nat (l div int (length s))) (take 6 (sha256hex (Join s)))) s))) \<le> l)
               (rev [0..<length s]) of
            Some j \<Rightarrow> Join (truncated_from j
                  (budgeted (nat (l div int (length s))) (take 6 (sha256hex (Join s)))) s)
          | None \<Rightarrow> take (nat l) (sha256hex (Join s)))"
proof -
  let ?t = "budgeted (nat (l div int (length s))) (take 6 (sha256hex (Join s)))"
  have same: "find (\<lambda>j. int (length (Join (truncated_from j ?t s))) \<le> l) (rev [0..<length s]) =
      find (\<lambda>j. int (length (Join (truncated_from j ?t s))) < l) (rev [0..<length s])"
    using assms(4) by (intro find_cong) (auto simp: order_le_less list_all_iff)
  have "\<not> int (length (Join s)) < l"
    using assms(2) by simp
  with Hashname_slow [of l s sha256hex] assms(1,3) show ?thesis
    unfolding same by (simp split: option.splits)
qed

theorem Hashname_truncation_order_witness:
  "snd (Hashname sha256hex_table 20 [''abcdefghijklmnopqrst'', ''b'', ''c'']) = Inr ''e0aaee/b/c''"
proof -
  let ?s = "[''abcdefghijklmnopqrst'', ''b'', ''c'']"
  have h1: "(0::int) \<le> 20" by simp
  have h2: "20 < int (length (Join ?s))" by simp
  have h3: "length (sha256hex_table (Join ?s)) = 64" by code_simp
  have h4: "list_all (\<lambda>j. int (length (Join (truncated_from j
             (budgeted (nat (20 div int (length ?s))) (take 6 (sha256hex_table (Join ?s)))) ?s))) \<noteq> 20)
           [0..<length ?s]" by code_simp
  have rhs: "(case find (\<lambda>j. int (length (Join (truncated_from j
                  (budgeted (nat (20 div int (length ?s))) (take 6 (sha256hex_table (Join ?s)))) ?s))) \<le> 20)
               (rev [0..<length ?s]) of
            Some j \<Rightarrow> Join (truncated_from j
                  (budgeted (nat (20 div int (length ?s))) (take 6 (sha256hex_table (Join ?s)))) ?s)
          | None \<Rightarrow> take (nat 20) (sha256hex_table (Join ?s))) = ''e0aaee/b/c''"
    by code_simp
  show ?thesis
    using Hashname_truncation_order [where l = 20 and s = ?s and sha256hex = sha256hex_table, OF h1 h2 h3 h4]
    unfolding rhs .
qed

text \<open>
  C5 as stated fails where the budget equals the suffix length: with budget 6 and the
  six-digit suffix \<open>ba7816\<close>, \<open>truncate\<close> returns the bare suffix for an eight-byte
  segment, although the budget is not smaller than the suffix length.
\<close>

theorem truncate_suffix_only_counterexample:
  "truncate 6 ''abcdefgh'' ''ba7816'' = Inr ''ba7816'' \<and> \<not> (6 < int (length ''ba7816''))"
  by (simp add: truncate_def slice_to_def min_int_def)

text \<open>
  C10 (amended).  For a bound \<open>l \<ge> 0\<close>: in the fast path the caller's slice is left as
  it was.  In every case the slice keeps its length, and an element that differs
  afterwards was longer than the budget \<open>l div (number of segments)\<close> and now holds its
  budgeted form.  Outside the fast path the caller sees a changed slice whenever the
  last segment is longer than the budget, and an unchanged one whenever no segment is
  longer than the budget.
\<close>

theorem Hashname_slice_effect:
  assumes "0 \<le> l" and "length (sha256hex (Join s)) = 64"
  shows "(int (length (Join s)) < l \<longrightarrow> fst (Hashname sha256hex l s) = s) \<and>
    length (fst (Hashname sha256hex l s)) = length s \<and>
    (\<forall>i<length s. fst (Hashname sha256hex l s) ! i \<noteq> s ! i \<longrightarrow>
        nat (l div int (length s)) < length (s ! i) \<and>
        fst (Hashname sha256hex l s) ! i =
          budgeted (nat (l div int (length s))) (take 6 (sha256hex (Join s))) (s ! i)) \<and>
    (\<not> int (length (Join s)) < l \<and> s \<noteq> [] \<and> nat (l div int (length s)) < length (last s) \<longrightarrow>
        fst (Hashname sha256hex l s) \<noteq> s) \<and>
    (list_all (\<lambda>x. length x \<le> nat (l div int (length s))) s \<longrightarrow>
        fst (Hashname sha256hex l s) = s)"
proof (cases "int (length (Join s)) < l")
  case True
  then show ?thesis by (simp add: Hashname_fast)
next
  case False
  let ?b = "nat (l div int (length s))"
  let ?t = "budgeted ?b (take 6 (sha256hex (Join s)))"
  from Hashname_fst [of l s sha256hex] assms False
  obtain j where j: "s \<noteq> [] \<longrightarrow> j < length s" "j \<le> length s"
    and eq: "fst (Hashname sha256hex l s) = truncated_from j ?t s"
    by blast
  have len: "length (fst (Hashname sha256hex l s)) = length s"
    by (simp add: eq length_truncated_from)
  have elems: "\<forall>i<length s. fst (Hashname sha256hex l s) ! i \<noteq> s ! i \<longrightarrow>
        ?b < length (s ! i) \<and> fst (Hashname sha256hex l s) ! i = ?t (s ! i)"
    by (auto simp: eq truncated_from_nth split: if_splits dest: budgeted_changed)
  have lastc: "s \<noteq> [] \<and> ?b < length (last s) \<longrightarrow> fst (Hashname sha256hex l s) \<noteq> s"
  proof (intro impI)
    assume a: "s \<noteq> [] \<and> ?b < length (last s)"
    then have i: "length s - 1 < length s" "\<not> length s - 1 < j"
      using j by auto
    have "length (take 6 (sha256hex (Join s))) = 6"
      using assms(2) by simp
    then have "length (?t (last s)) = ?b"
      using a by (simp add: length_budgeted)
    then have "?t (last s) \<noteq> last s"
      using a by auto
    moreover have "fst (Hashname sha256hex l s) ! (length s - 1) = ?t (last s)"
      using i a by (simp add: eq truncated_from_nth last_conv_nth)
    ultimately show "fst (Hashname sha256hex l s) \<noteq> s"
      using a by (auto simp: last_conv_nth)
  qed
  have short: "list_all (\<lambda>x. length x \<le> ?b) s \<longrightarrow> fst (Hashname sha256hex l s) = s"
  proof (intro impI)
    assume "list_all (\<lambda>x. length x \<le> ?b) s"
    then have "\<forall>x\<in>set (drop j s). ?t x = x"
      by (auto simp: list_all_iff budgeted_short dest: in_set_dropD)
    then have "map ?t (drop j s) = drop j s"
      by (simp add: map_idI)
    then show "fst (Hashname sha256hex l s) = s"
      by (simp add: eq truncated_from_def)
  qed
  from False len elems lastc short show ?thesis by blast
qed

theorem Hashname_slice_effect_witness:
  "fst (Hashname sha256hex_table 20 [''b'', ''c'', ''abcdefghijklmnopqrst'']) \<noteq>
     [''b'', ''c'', ''abcdefghijklmnopqrst''] \<and>
   length (fst (Hashname sha256hex_table 20 [''b'', ''c'', ''abcdefghijklmnopqrst''])) = 3"
proof -
  let ?s = "[''b'', ''c'', ''abcdefghijklmnopqrst'']"
  have h1: "(0::int) \<le> 20" by simp
  have h2: "length (sha256hex_table (Join ?s)) = 64" by code_simp
  have h3: "\<not> int (length (Join ?s)) < 20 \<and> ?s \<noteq> [] \<and> nat (20 div int (length ?s)) < length (last ?s)"
    by simp
  note effect = Hashname_slice_effect [where l = 20 and s = ?s and sha256hex = sha256hex_table, OF h1 h2]
  from effect h3 have changed: "fst (Hashname sha256hex_table 20 ?s) \<noteq> ?s"
    by blast
  from effect have "length (fst (Hashname sha256hex_table 20 ?s)) = length ?s"
    by blast
  then have "length (fst (Hashname sha256hex_table 20 ?s)) = 3"
    by simp
  with changed show ?thesis
    by blast
qed

text \<open>
  C10 as stated fails: \<open>Hashname(4, "ab", "cd")\<close> is outside the fast path (the joined
  string has five bytes), every segment is within the budget 2, and the slice is
  unchanged after the call, which returns the first four digits of the digest.
\<close>

theorem Hashname_slice_unchanged_counterexample:
  "\<not> int (length (Join [''ab'', ''cd''])) < 4 \<and>
   Hashname sha256hex_table 4 [''ab'', ''cd''] = ([''ab'', ''cd''], Inr ''d79e'')"
  by code_simp

lemma length_utoa: "n < 10 ^ k \<Longrightarrow> 0 < k \<Longrightarrow> length (utoa n) \<le> k"
proof (induction n arbitrary: k rule: utoa.induct)
  case (1 n)
  show ?case
  proof (cases "n < 10")
    case True
    then show ?thesis using "1.prems" by (subst utoa.simps) simp
  next
    case False
    then obtain k' where k: "k = Suc k'" "0 < k'"
      using "1.prems" by (cases k; cases "k - 1") auto
    have "n div 10 < 10 ^ k'"
      using "1.prems"(1) k by (simp add: less_mult_imp_div_less mult.commute)
    then have "length (utoa (n div 10)) \<le> k'"
      using "1.IH" False k by simp
    then show ?thesis using False k by (subst utoa.simps) simp
  qed
qed

lemma length_Itoa_port: "length (Itoa (sint (p :: 32 word))) \<le> 11"
proof -
  have r: "- (2 ^ 31) \<le> sint p" "sint p < 2 ^ 31"
    using sint_ge [of p] sint_lt [of p] by simp_all
  show ?thesis
  proof (cases "sint p < 0")
    case True
    then have "nat (- sint p) < 10 ^ 10" using r by simp
    then have "length (utoa (nat (- sint p))) \<le> 10" by (rule length_utoa) simp
    then show ?thesis using True by (simp add: Itoa_def)
  next
    case False
    then have "nat (sint p) < 10 ^ 10" using r by simp
    then have "length (utoa (nat (sint p))) \<le> 10" by (rule length_utoa) simp
    then show ?thesis using False by (simp add: Itoa_def)
  qed
qed

lemma length_budgeted_le: "length h = 6 \<Longrightarrow> length (budgeted b h x) \<le> b"
  by (auto simp: budgeted_def)

lemma truncated_from_four:
  assumes "t d = d" "j < 4"
  shows "\<exists>x y z. truncated_from j t [a, b, c, d] = [x, y, z, d]"
proof -
  from assms(2) consider "j = 0" | "j = 1" | "j = 2" | "j = 3" by linarith
  then show ?thesis
    using assms(1) by cases (simp_all add: truncated_from_def numeral_2_eq_2 numeral_3_eq_3)
qed

lemma Hashname_four_suffix:
  assumes H: "length (H (Join [a, b, c, d])) = 64"
    and c: "length c \<le> 11" and d: "length d = 10"
  shows "\<exists>p. snd (Hashname H 60 [a, b, c, d]) = Inr (p @ ''/'' @ d)"
proof (cases "int (length (Join [a, b, c, d])) < 60")
  case True
  then have "snd (Hashname H 60 [a, b, c, d]) = Inr ((a @ ''/'' @ b @ ''/'' @ c) @ ''/'' @ d)"
    by (simp add: Hashname_fast)
  then show ?thesis by blast
next
  case False
  let ?s = "[a, b, c, d]"
  define h where "h = take 6 (H (Join ?s))"
  define t where "t = budgeted 15 h"
  let ?P = "\<lambda>j. int (length (Join (truncated_from j t ?s))) < 60"
  have b15: "nat (60 div int (length ?s)) = 15" by simp
  have h6: "length h = 6" using H by (simp add: h_def)
  have td: "t d = d" using d by (simp add: t_def budgeted_short)
  have tc: "t c = c" using c by (simp add: t_def budgeted_short)
  have slow: "Hashname H 60 ?s =
     (case find ?P (rev [0..<length ?s]) of
        Some j \<Rightarrow> (truncated_from j t ?s, Inr (Join (truncated_from j t ?s)))
      | None \<Rightarrow> (truncated_from 0 t ?s, Inr (take (nat 60) (H (Join ?s)))))"
    using Hashname_slow [of 60 ?s H] False H unfolding b15 t_def h_def by simp
  have "length (t a) \<le> 15" "length (t b) \<le> 15"
    using length_budgeted_le [OF h6] by (simp_all add: t_def)
  then have P0: "?P 0"
    using c d by (simp add: truncated_from_def tc td)
  obtain j where j: "find ?P (rev [0..<length ?s]) = Some j"
    using P0 find_rev_upt_None [of ?P "length ?s" 0] by (cases "find ?P (rev [0..<length ?s])") auto
  then have "j < 4" using find_rev_upt_Some [OF j] by simp
  then obtain x y z where "truncated_from j t ?s = [x, y, z, d]"
    using truncated_from_four [of t d j a b c] td by blast
  then have "snd (Hashname H 60 ?s) = Inr ((x @ ''/'' @ y @ ''/'' @ z) @ ''/'' @ d)"
    using slow j by simp
  then show ?thesis by blast
qed

text \<open>
  With bound 60 and four segments the budget is 15: the port and the ten-digit hash
  are never shortened, the loop returns at the latest after the namespace, and the
  name ends with the hash segment.
\<close>

lemma Clustername_suffix:
  assumes "\<forall>r. length (sha256hex r) = 64" "\<forall>r. length (sha1hex5 r) = 10"
  shows "\<exists>p. Clustername sha1hex5 sha256hex dur svc =
     Inr (p @ ''/'' @ sha1hex5 (Clustername_buf dur svc))"
  unfolding Clustername_def Let_def
  using assms by (intro Hashname_four_suffix length_Itoa_port) auto

text \<open>
  C9 (amended).  For two services that agree on namespace, name, port and strategy:
  with no health check on either, \<open>Clustername\<close> returns identical strings; when they
  differ only in \<open>IntervalSeconds\<close>, both intervals are positive and their durations
  (\<open>seconds * time.Second\<close>, wrapping in 64 bits) print differently, the strings that are
  hashed differ; and whenever the ten-digit SHA-1 prefixes of the hashed strings differ,
  \<open>Clustername\<close> returns different strings.
\<close>

theorem Clustername_distinct:
  assumes "\<forall>r. length (sha256hex r) = 64" and "\<forall>r. length (sha1hex5 r) = 10"
    and "svc_Namespace a = svc_Namespace b" and "svc_Name a = svc_Name b" and "Port a = Port b"
    and "LoadBalancerStrategy a = LoadBalancerStrategy b"
  shows "(HealthCheck a = None \<and> HealthCheck b = None \<longrightarrow>
       Clustername sha1hex5 sha256hex dur a = Clustername sha1hex5 sha256hex dur b) \<and>
    (\<forall>ha i. HealthCheck a = Some ha \<and> HealthCheck b = Some (ha\<lparr>IntervalSeconds := i\<rparr>) \<and>
       0 <s IntervalSeconds ha \<and> 0 <s i \<and>
       dur (seconds (IntervalSeconds ha)) \<noteq> dur (seconds i) \<longrightarrow>
       Clustername_buf dur a \<noteq> Clustername_buf dur b) \<and>
    (sha1hex5 (Clustername_buf dur a) \<noteq> sha1hex5 (Clustername_buf dur b) \<longrightarrow>
       Clustername sha1hex5 sha256hex dur a \<noteq> Clustername sha1hex5 sha256hex dur b)"
proof (intro conjI impI allI)
  assume "HealthCheck a = None \<and> HealthCheck b = None"
  then have "Clustername_buf dur a = Clustername_buf dur b"
    using assms(6) by (simp add: Clustername_buf_def)
  then show "Clustername sha1hex5 sha256hex dur a = Clustername sha1hex5 sha256hex dur b"
    using assms(3-5) by (simp add: Clustername_def)
next
  fix ha i
  assume "HealthCheck a = Some ha \<and> HealthCheck b = Some (ha\<lparr>IntervalSeconds := i\<rparr>) \<and>
       0 <s IntervalSeconds ha \<and> 0 <s i \<and>
       dur (seconds (IntervalSeconds ha)) \<noteq> dur (seconds i)"
  then show "Clustername_buf dur a \<noteq> Clustername_buf dur b"
    using assms(6) by (simp add: Clustername_buf_def)
next
  assume ne: "sha1hex5 (Clustername_buf dur a) \<noteq> sha1hex5 (Clustername_buf dur b)"
  obtain p where p: "Clustername sha1hex5 sha256hex dur a =
      Inr (p @ ''/'' @ sha1hex5 (Clustername_buf dur a))"
    using Clustername_suffix [OF assms(1,2)] by blast
  obtain q where q: "Clustername sha1hex5 sha256hex dur b =
      Inr (q @ ''/'' @ sha1hex5 (Clustername_buf dur b))"
    using Clustername_suffix [OF assms(1,2)] by blast
  have "length (sha1hex5 (Clustername_buf dur a)) = length (sha1hex5 (Clustername_buf dur b))"
    using assms(2) by simp
  then have "p @ ''/'' @ sha1hex5 (Clustername_buf dur a) \<noteq> q @ ''/'' @ sha1hex5 (Clustername_buf dur b)"
    using ne by (metis append_eq_append_conv append_assoc)
  then show "Clustername sha1hex5 sha256hex dur a \<noteq> Clustername sha1hex5 sha256hex dur b"
    using p q by simp
qed

text \<open>
  C9 as stated fails.  An interval that is not positive is left out of the hashed
  string, so the intervals \<open>-1\<close> and \<open>-2\<close> give one name; and the intervals \<open>1\<close> and
  \<open>2^55 + 1\<close> give one name, because the two products with \<open>time.Second\<close> are the same
  64-bit duration.
\<close>

theorem Clustername_interval_counterexample:
  "(- 1 :: 64 word) \<noteq> 0 \<and> (- 2 :: 64 word) \<noteq> 0 \<and> (- 1 :: 64 word) \<noteq> - 2 \<and>
   Clustername sha1hex5_table sha256hex_table durationString_table (service_example (- 1)) =
     Inr ''default/echo/80/bc862a33ca'' \<and>
   Clustername sha1hex5_table sha256hex_table durationString_table (service_example (- 2)) =
     Inr ''default/echo/80/bc862a33ca'' \<and>
   (1 :: 64 word) \<noteq> 0 \<and> (36028797018963969 :: 64 word) \<noteq> 0 \<and>
   (1 :: 64 word) \<noteq> 36028797018963969 \<and>
   Clustername sha1hex5_table sha256hex_table durationString_table (service_example 1) =
     Inr ''default/echo/80/3607c5a504'' \<and>
   Clustername sha1hex5_table sha256hex_table durationString_table
       (service_example 36028797018963969) =
     Inr ''default/echo/80/3607c5a504''"
  by code_simp

theorem Clustername_distinct_witness:
  "Clustername sha1hex5_table sha256hex_table durationString_table (service_example 1) \<noteq>
   Clustername sha1hex5_table sha256hex_table durationString_table (service_example 2)"
proof -
  have h1: "\<forall>r. length (sha256hex_table r) = 64"
    by (simp add: sha256hex_table_def)
  have h2: "\<forall>r. length (sha1hex5_table r) = 10"
    by (simp add: sha1hex5_table_def)
  have ne: "sha1hex5_table (Clustername_buf durationString_table (service_example 1)) \<noteq>
      sha1hex5_table (Clustername_buf durationString_table (service_example 2))"
    by code_simp
  have same: "svc_Namespace (service_example 1) = svc_Namespace (service_example 2)"
    "svc_Name (service_example 1) = svc_Name (service_example 2)"
    "Port (service_example 1) = Port (service_example 2)"
    "LoadBalancerStrategy (service_example 1) = LoadBalancerStrategy (service_example 2)"
    by (simp_all add: service_example_def)
  from Clustername_distinct [OF h1 h2 same, of durationString_table] ne
  show ?thesis by blast
qed

section \<open>Properties of the ingress processor\<close>

subsection \<open>One path entry\<close>

lemma routes_at_nonempty_dom: "routes_at m h \<noteq> [] \<Longrightarrow> h \<in> dom m"
  by (auto simp: routes_at_def split: option.splits)

lemma path_step_virtualhosts:
  "routes_at (virtualhosts (computeIngressRule_path env ing host b hp)) h =
     routes_at (virtualhosts b) h @
       (if h = host \<and> (TLSRequired env ing \<or> HTTPAllowed env ing)
        then (case path_route env ing hp of None \<Rightarrow> [] | Some r \<Rightarrow> [r]) else [])"
  by (auto simp: computeIngressRule_path_def path_route_def lookupVirtualHost_def Let_def
      addRoute_def routes_at_def split: option.splits)

lemma path_step_secure:
  "routes_at (securevirtualhosts (computeIngressRule_path env ing host b hp)) h =
     routes_at (securevirtualhosts b) h @
       (if h = host \<and> host \<noteq> ''*'' \<and> host \<in> dom (securevirtualhosts b)
        then (case path_route env ing hp of None \<Rightarrow> [] | Some r \<Rightarrow> [r]) else [])"
  by (auto simp: computeIngressRule_path_def path_route_def lookupVirtualHost_def Let_def
      addRoute_def routes_at_def split: option.splits)

lemma path_step_secure_dom:
  "dom (securevirtualhosts (computeIngressRule_path env ing host b hp)) = dom (securevirtualhosts b)"
  by (auto simp: computeIngressRule_path_def lookupVirtualHost_def Let_def split: option.splits if_splits)

lemma path_step_virtualhosts_dom:
  "dom (virtualhosts (computeIngressRule_path env ing host b hp)) \<subseteq> insert host (dom (virtualhosts b))"
  by (auto simp: computeIngressRule_path_def lookupVirtualHost_def Let_def split: option.splits if_splits)

text \<open>Phase B records no diagnostic.\<close>

lemma path_step_diagnostics:
  "diagnostics (computeIngressRule_path env ing host b hp) = diagnostics b"
  by (auto simp: computeIngressRule_path_def lookupVirtualHost_def Let_def split: option.splits if_splits)


lemma foldl_through:
  assumes "x \<in> set xs"
  shows "\<exists>pre post. xs = pre @ x # post \<and> foldl f b xs = foldl f (f (foldl f b pre) x) post"
proof -
  from assms obtain pre post where "xs = pre @ x # post"
    by (auto dest: split_list)
  then have "xs = pre @ x # post \<and> foldl f b xs = foldl f (f (foldl f b pre) x) post"
    by simp
  then show ?thesis by blast
qed

subsection \<open>Phase B: rules and ingresses\<close>

lemma paths_fold_virtualhosts:
  "routes_at (virtualhosts (foldl (computeIngressRule_path env ing host) b hps)) h =
     routes_at (virtualhosts b) h @
       (if h = host \<and> (TLSRequired env ing \<or> HTTPAllowed env ing)
        then List.map_filter (path_route env ing) hps else [])"
  by (induction hps arbitrary: b)
    (auto simp: path_step_virtualhosts map_filter_simps split: option.splits)

lemma paths_fold_secure_dom:
  "dom (securevirtualhosts (foldl (computeIngressRule_path env ing host) b hps)) =
     dom (securevirtualhosts b)"
  by (induction hps arbitrary: b) (simp_all add: path_step_secure_dom)

lemma paths_fold_secure:
  "routes_at (securevirtualhosts (foldl (computeIngressRule_path env ing host) b hps)) h =
     routes_at (securevirtualhosts b) h @
       (if h = host \<and> host \<noteq> ''*'' \<and> host \<in> dom (securevirtualhosts b)
        then List.map_filter (path_route env ing) hps else [])"
  by (induction hps arbitrary: b)
    (auto simp: path_step_secure path_step_secure_dom map_filter_simps split: option.splits)

lemma paths_fold_virtualhosts_dom:
  "dom (virtualhosts (foldl (computeIngressRule_path env ing host) b hps)) \<subseteq>
     insert host (dom (virtualhosts b))"
proof (induction hps arbitrary: b)
  case Nil
  then show ?case by auto
next
  case (Cons hp hps)
  show ?case
    using Cons [of "computeIngressRule_path env ing host b hp"]
      path_step_virtualhosts_dom [of env ing host b hp]
    by auto
qed

lemma Contains_single: "Contains s [c] \<longleftrightarrow> c \<in> set s"
proof
  assume "Contains s [c]"
  then obtain i where "take 1 (drop i s) = [c]"
    by (auto simp: Contains_def list_ex_iff)
  then have "c \<in> set (take 1 (drop i s))" by simp
  then show "c \<in> set s"
    by (meson in_set_dropD in_set_takeD)
next
  assume "c \<in> set s"
  then obtain i where i: "i < length s" "s ! i = c"
    by (auto simp: in_set_conv_nth)
  then have "take 1 (drop i s) = [c]"
    using Cons_nth_drop_Suc [of i s] by (metis One_nat_def take0 take_Suc_Cons)
  then show "Contains s [c]"
    using i by (auto simp: Contains_def list_ex_iff intro!: bexI [of _ i])
qed

lemma rule_virtualhosts:
  "routes_at (virtualhosts (computeIngressRule env ing b rule)) h =
     routes_at (virtualhosts b) h @
       (if \<not> Contains (Host rule) ''*'' \<and> h = rule_host rule \<and>
           (TLSRequired env ing \<or> HTTPAllowed env ing)
        then built_routes env ing rule else [])"
  by (cases "Host rule = []")
    (auto simp: computeIngressRule_def Let_def paths_fold_virtualhosts rule_host_def
      built_routes_def Contains_single)

lemma rule_secure:
  "routes_at (securevirtualhosts (computeIngressRule env ing b rule)) h =
     routes_at (securevirtualhosts b) h @
       (if \<not> Contains (Host rule) ''*'' \<and> h = rule_host rule \<and> h \<noteq> ''*'' \<and>
           h \<in> dom (securevirtualhosts b)
        then built_routes env ing rule else [])"
  by (cases "Host rule = []")
    (auto simp: computeIngressRule_def Let_def paths_fold_secure rule_host_def
      built_routes_def Contains_single)

lemma rule_secure_dom:
  "dom (securevirtualhosts (computeIngressRule env ing b rule)) = dom (securevirtualhosts b)"
  by (simp add: computeIngressRule_def Let_def paths_fold_secure_dom)

lemma rule_virtualhosts_dom:
  "dom (virtualhosts (computeIngressRule env ing b rule)) \<subseteq>
     dom (virtualhosts b) \<union> {h. h = rule_host rule \<and> \<not> Contains (Host rule) ''*''}"
  using paths_fold_virtualhosts_dom [of env ing "rule_host rule" b "httppaths rule"]
  by (cases "Host rule = []") (auto simp: computeIngressRule_def Let_def rule_host_def Contains_single)

text \<open>
  Phase B only appends routes: it never changes the set of secure hosts and never
  attaches a route to the secure default host.
\<close>

lemma grows_refl: "grows b b"
  by (simp add: grows_def)

lemma grows_trans: "grows a b \<Longrightarrow> grows b c \<Longrightarrow> grows a c"
  unfolding grows_def by (auto; blast)

lemma foldl_grows:
  assumes "\<And>b x. grows b (f b x)"
  shows "grows b (foldl f b xs)"
proof (induction xs arbitrary: b)
  case Nil
  then show ?case by (simp add: grows_refl)
next
  case (Cons x xs)
  show ?case
    using grows_trans [OF assms [of b x] Cons [of "f b x"]] by simp
qed

lemma rule_grows: "grows b (computeIngressRule env ing b rule)"
  by (simp add: grows_def rule_secure_dom rule_secure rule_virtualhosts)

lemma rules_grows: "grows b (foldl (computeIngressRule env ing) b rules)"
  by (rule foldl_grows) (rule rule_grows)

lemma computeIngresses_grows: "grows b (computeIngresses env b)"
  unfolding computeIngresses_def by (rule foldl_grows) (rule rules_grows)

lemma path_route_built:
  "hp \<in> set (httppaths rule) \<Longrightarrow> path_route env ing hp = Some r \<Longrightarrow> r \<in> set (built_routes env ing rule)"
  by (force simp: built_routes_def map_filter_def)

text \<open>A route built for a rule of an ingress of the snapshot is in the final graph.\<close>

lemma computeIngresses_attaches:
  assumes ing: "ing \<in> set (ingresses env)"
    and rule: "rule \<in> set (rulesFromSpec (Spec ing))"
    and nowild: "\<not> Contains (Host rule) ''*''"
    and built: "r \<in> set (built_routes env ing rule)"
  shows "TLSRequired env ing \<or> HTTPAllowed env ing \<Longrightarrow>
      r \<in> set (routes_at (virtualhosts (computeIngresses env b)) (rule_host rule))"
    and "rule_host rule \<noteq> ''*'' \<Longrightarrow> rule_host rule \<in> dom (securevirtualhosts b) \<Longrightarrow>
      r \<in> set (routes_at (securevirtualhosts (computeIngresses env b)) (rule_host rule))"
proof -
  let ?F = "\<lambda>b ing. foldl (computeIngressRule env ing) b (rulesFromSpec (Spec ing))"
  obtain pre post where ings: "computeIngresses env b = foldl ?F (?F (foldl ?F b pre) ing) post"
    using foldl_through [OF ing, of ?F b] unfolding computeIngresses_def by blast
  define b1 where "b1 = foldl ?F b pre"
  obtain rpre rpost where rules: "?F b1 ing =
      foldl (computeIngressRule env ing) (computeIngressRule env ing (foldl (computeIngressRule env ing) b1 rpre) rule) rpost"
    using foldl_through [OF rule, of "computeIngressRule env ing" b1] by blast
  define b2 where "b2 = foldl (computeIngressRule env ing) b1 rpre"
  define b3 where "b3 = computeIngressRule env ing b2 rule"
  have g1: "grows b b1"
    unfolding b1_def by (rule foldl_grows) (rule rules_grows)
  have g2: "grows b1 b2"
    unfolding b2_def by (rule rules_grows)
  have g12: "grows b b2"
    using g1 g2 by (rule grows_trans)
  have g3: "grows b3 (?F b1 ing)"
    unfolding rules b3_def b2_def by (rule rules_grows)
  have g4: "grows (?F b1 ing) (computeIngresses env b)"
    unfolding ings b1_def by (rule foldl_grows) (rule rules_grows)
  have g34: "grows b3 (computeIngresses env b)"
    using g3 g4 by (rule grows_trans)
  {
    assume "TLSRequired env ing \<or> HTTPAllowed env ing"
    then have "r \<in> set (routes_at (virtualhosts b3) (rule_host rule))"
      using nowild built unfolding b3_def by (simp add: rule_virtualhosts)
    then show "r \<in> set (routes_at (virtualhosts (computeIngresses env b)) (rule_host rule))"
      using g34 unfolding grows_def by blast
  }
  {
    assume "rule_host rule \<noteq> ''*''" "rule_host rule \<in> dom (securevirtualhosts b)"
    then have "rule_host rule \<in> dom (securevirtualhosts b2)"
      using g12 unfolding grows_def by simp
    then have "r \<in> set (routes_at (securevirtualhosts b3) (rule_host rule))"
      using nowild built \<open>rule_host rule \<noteq> ''*''\<close> unfolding b3_def by (simp add: rule_secure)
    then show "r \<in> set (routes_at (securevirtualhosts (computeIngresses env b)) (rule_host rule))"
      using g34 unfolding grows_def by blast
  }
qed

subsection \<open>Phase A: hosts, TLS blocks and ingresses\<close>

lemma host_step_secure_dom:
  "dom (securevirtualhosts (computeSecureVirtualhosts_host env ing sec b host)) =
     insert host (dom (securevirtualhosts b))"
  by (auto simp: computeSecureVirtualhosts_host_def lookupSecureVirtualHost_def Let_def
      split: option.splits)

lemma host_step_secure_routes:
  "routes_at (securevirtualhosts (computeSecureVirtualhosts_host env ing sec b host)) h =
     routes_at (securevirtualhosts b) h"
  by (auto simp: computeSecureVirtualhosts_host_def lookupSecureVirtualHost_def Let_def
      routes_at_def split: option.splits)

lemma host_step_other:
  "virtualhosts (computeSecureVirtualhosts_host env ing sec b host) = virtualhosts b"
  "diagnostics (computeSecureVirtualhosts_host env ing sec b host) = diagnostics b"
  by (auto simp: computeSecureVirtualhosts_host_def lookupSecureVirtualHost_def Let_def
      split: option.splits)

lemma hosts_fold:
  "dom (securevirtualhosts (foldl (computeSecureVirtualhosts_host env ing sec) b hosts)) =
     dom (securevirtualhosts b) \<union> set hosts"
  "routes_at (securevirtualhosts (foldl (computeSecureVirtualhosts_host env ing sec) b hosts)) h =
     routes_at (securevirtualhosts b) h"
  "virtualhosts (foldl (computeSecureVirtualhosts_host env ing sec) b hosts) = virtualhosts b"
  "diagnostics (foldl (computeSecureVirtualhosts_host env ing sec) b hosts) = diagnostics b"
  by (induction hosts arbitrary: b)
    (simp_all add: host_step_secure_dom host_step_secure_routes host_step_other)

lemma tls_step_failed:
  assumes "\<not> tls_ok env ing tls"
  shows "securevirtualhosts (computeSecureVirtualhosts_tls env ing b tls) = securevirtualhosts b"
    and "virtualhosts (computeSecureVirtualhosts_tls env ing b tls) = virtualhosts b"
    and "\<exists>e. diagnostics (computeSecureVirtualhosts_tls env ing b tls) = diagnostics b @ [e] \<and>
           log_name e = Name ing \<and> log_namespace e = Namespace ing \<and>
           log_secret e = NamespacedNameFrom env (SecretName tls) (Namespace ing)"
  using assms
  by (auto simp: computeSecureVirtualhosts_tls_def tls_ok_def Let_def split: sum.splits)

lemma tls_step_ok:
  assumes "tls_ok env ing tls"
  shows "dom (securevirtualhosts (computeSecureVirtualhosts_tls env ing b tls)) =
      dom (securevirtualhosts b) \<union> set (Hosts tls)"
    and "diagnostics (computeSecureVirtualhosts_tls env ing b tls) = diagnostics b"
  using assms
  by (auto simp: computeSecureVirtualhosts_tls_def tls_ok_def Let_def hosts_fold split: sum.splits)

lemma tls_step_any:
  "routes_at (securevirtualhosts (computeSecureVirtualhosts_tls env ing b tls)) h =
     routes_at (securevirtualhosts b) h"
  "virtualhosts (computeSecureVirtualhosts_tls env ing b tls) = virtualhosts b"
  "dom (securevirtualhosts (computeSecureVirtualhosts_tls env ing b tls)) =
     dom (securevirtualhosts b) \<union> (if tls_ok env ing tls then set (Hosts tls) else {})"
  by (auto simp: computeSecureVirtualhosts_tls_def tls_ok_def Let_def hosts_fold split: sum.splits)

lemma tls_fold:
  "routes_at (securevirtualhosts (foldl (computeSecureVirtualhosts_tls env ing) b blocks)) h =
     routes_at (securevirtualhosts b) h"
  "virtualhosts (foldl (computeSecureVirtualhosts_tls env ing) b blocks) = virtualhosts b"
  "dom (securevirtualhosts (foldl (computeSecureVirtualhosts_tls env ing) b blocks)) =
     dom (securevirtualhosts b) \<union> {h. \<exists>tls\<in>set blocks. tls_ok env ing tls \<and> h \<in> set (Hosts tls)}"
  by (induction blocks arbitrary: b) (auto simp: tls_step_any split: if_splits)

lemma ingresses_fold:
  "routes_at (securevirtualhosts (foldl (\<lambda>b ing. foldl (computeSecureVirtualhosts_tls env ing) b (TLS (Spec ing))) b ings)) h =
     routes_at (securevirtualhosts b) h"
  "virtualhosts (foldl (\<lambda>b ing. foldl (computeSecureVirtualhosts_tls env ing) b (TLS (Spec ing))) b ings) = virtualhosts b"
  "dom (securevirtualhosts (foldl (\<lambda>b ing. foldl (computeSecureVirtualhosts_tls env ing) b (TLS (Spec ing))) b ings)) =
     dom (securevirtualhosts b) \<union>
     {h. \<exists>ing\<in>set ings. \<exists>tls\<in>set (TLS (Spec ing)). tls_ok env ing tls \<and> h \<in> set (Hosts tls)}"
  by (induction ings arbitrary: b) (auto simp: tls_fold)

lemma computeSecureVirtualhosts_effect:
  "routes_at (securevirtualhosts (computeSecureVirtualhosts env b)) h = routes_at (securevirtualhosts b) h"
  "virtualhosts (computeSecureVirtualhosts env b) = virtualhosts b"
  "dom (securevirtualhosts (computeSecureVirtualhosts env b)) =
     dom (securevirtualhosts b) \<union> {h. tls_host_resolved env h}"
  by (auto simp: computeSecureVirtualhosts_def ingresses_fold tls_host_resolved_def list_ex_iff)

subsection \<open>The claims\<close>

lemma ContainsAny_iff: "ContainsAny s chars \<longleftrightarrow> (\<exists>c\<in>set s. c \<in> set chars)"
  by (simp add: ContainsAny_def list_ex_iff)

text \<open>
  C8.  The path match condition of a built route is the regex variant if and only if
  the path contains one of the characters \<open>^ + * [ ] %\<close>, and the prefix variant if and
  only if it contains none of them.  The condition is a value of a datatype with
  these two variants, so exactly one is set.
\<close>

theorem route_match_condition:
  "(PathMatchCondition (route env ing path s) = RegexMatchCondition path \<longleftrightarrow>
      (\<exists>c\<in>set path. c \<in> set ''^+*[]%'')) \<and>
   (PathMatchCondition (route env ing path s) = PrefixMatchCondition path \<longleftrightarrow>
      \<not> (\<exists>c\<in>set path. c \<in> set ''^+*[]%''))"
  unfolding ContainsAny_iff [symmetric] by (simp add: route_def Let_def)

theorem route_match_condition_witness:
  "PathMatchCondition (route (example_env []) example_tls_ingress ''/v[0-9]+'' example_service) =
     RegexMatchCondition ''/v[0-9]+'' \<and>
   PathMatchCondition (route (example_env []) example_tls_ingress ''/'' example_service) =
     PrefixMatchCondition ''/''"
  using route_match_condition [of "example_env []" example_tls_ingress "''/v[0-9]+''" example_service]
    route_match_condition [of "example_env []" example_tls_ingress "''/''" example_service]
  by simp

lemma rule_virtualhosts_unchanged:
  "\<not> (TLSRequired env ing \<or> HTTPAllowed env ing) \<Longrightarrow>
     virtualhosts (computeIngressRule env ing b rule) = virtualhosts b"
proof -
  assume f: "\<not> (TLSRequired env ing \<or> HTTPAllowed env ing)"
  have step: "\<And>b host hp. virtualhosts (computeIngressRule_path env ing host b hp) = virtualhosts b"
    using f by (auto simp: computeIngressRule_path_def Let_def split: option.splits)
  have "\<And>host hps. virtualhosts (foldl (computeIngressRule_path env ing host) b hps) = virtualhosts b"
  proof -
    fix host hps
    show "virtualhosts (foldl (computeIngressRule_path env ing host) b hps) = virtualhosts b"
      by (induction hps arbitrary: b) (simp_all add: step)
  qed
  then show ?thesis
    by (simp add: computeIngressRule_def Let_def)
qed

text \<open>
  C4.  For a rule whose host has no wildcard character, \<open>computeIngressRule\<close> appends to
  the routes of the plaintext virtual host of the rule's normalised host the routes
  built for the path entries whose service resolves, in order, if the ingress requires
  TLS or allows HTTP, and nothing otherwise.  The routes of every other host are
  unchanged, and when neither flag holds the plaintext map is unchanged.
\<close>

theorem plaintext_route_attachment:
  assumes "\<not> Contains (Host rule) ''*''"
  shows "routes_at (virtualhosts (computeIngressRule env ing b rule)) (rule_host rule) =
      routes_at (virtualhosts b) (rule_host rule) @
        (if TLSRequired env ing \<or> HTTPAllowed env ing then built_routes env ing rule else []) \<and>
    (\<forall>h. h \<noteq> rule_host rule \<longrightarrow>
      routes_at (virtualhosts (computeIngressRule env ing b rule)) h = routes_at (virtualhosts b) h) \<and>
    (\<not> (TLSRequired env ing \<or> HTTPAllowed env ing) \<longrightarrow>
      virtualhosts (computeIngressRule env ing b rule) = virtualhosts b)"
  using assms rule_virtualhosts_unchanged [of env ing b rule]
  by (simp add: rule_virtualhosts)

theorem plaintext_route_attachment_witness:
  "routes_at (virtualhosts (computeIngressRule (example_env []) example_tls_ingress emptyBuilder example_rule))
      ''a.example.com'' =
     [route (example_env []) example_tls_ingress ''/v[0-9]+'' example_service]"
proof -
  have h: "\<not> Contains (Host example_rule) ''*''"
    by (simp add: Contains_single example_rule_def)
  have flags: "TLSRequired (example_env []) example_tls_ingress \<or> HTTPAllowed (example_env []) example_tls_ingress"
    by (simp add: example_env_def example_tls_ingress_def)
  have built: "built_routes (example_env []) example_tls_ingress example_rule =
      [route (example_env []) example_tls_ingress ''/v[0-9]+'' example_service]"
    by (simp add: built_routes_def path_route_def httppaths_def example_rule_def echo_backend_def
        stringOrDefault_def example_env_def)
  have host: "rule_host example_rule = ''a.example.com''"
    by (simp add: rule_host_def example_rule_def)
  have empty: "routes_at (virtualhosts emptyBuilder) ''a.example.com'' = []"
    by (simp add: routes_at_def emptyBuilder_def)
  from plaintext_route_attachment [OF h, of "example_env []" example_tls_ingress emptyBuilder]
  show ?thesis
    using flags built host empty by simp
qed

text \<open>
  C7 (amended).  For an ingress of the snapshot with no TLS block, no rule and a
  default backend whose service resolves, provided the ingress requires TLS or allows
  HTTP, the route built for the path \<open>/\<close> is attached to the plaintext virtual host of
  the default host \<open>*\<close> after the run, and its path match condition is the prefix \<open>/\<close>.
\<close>

theorem default_backend_route:
  assumes "ing \<in> set (ingresses env)"
    and "TLS (Spec ing) = []" and "Rules (Spec ing) = []" and "spec_Backend (Spec ing) = Some be"
    and "lookupService env \<lparr>nn_Namespace = Namespace ing, nn_Name = ServiceName be\<rparr> (ServicePort be) = Some s"
    and "TLSRequired env ing \<or> HTTPAllowed env ing"
  shows "route env ing ''/'' s \<in> set (routes_at (virtualhosts (Run env b)) ''*'') \<and>
    PathMatchCondition (route env ing ''/'' s) = PrefixMatchCondition ''/''"
proof -
  let ?rule = "defaultBackendRule be"
  have rule: "?rule \<in> set (rulesFromSpec (Spec ing))"
    using assms(3,4) by (simp add: rulesFromSpec_def)
  have nowild: "\<not> Contains (Host ?rule) ''*''"
    by (simp add: Contains_single defaultBackendRule_def)
  have host: "rule_host ?rule = ''*''"
    by (simp add: rule_host_def defaultBackendRule_def)
  have "built_routes env ing ?rule = [route env ing ''/'' s]"
    using assms(5)
    by (simp add: built_routes_def path_route_def httppaths_def defaultBackendRule_def
        stringOrDefault_def)
  then have built: "route env ing ''/'' s \<in> set (built_routes env ing ?rule)"
    by simp
  have "route env ing ''/'' s \<in>
      set (routes_at (virtualhosts (computeIngresses env (computeSecureVirtualhosts env b))) (rule_host ?rule))"
    using computeIngresses_attaches(1) [OF assms(1) rule nowild built assms(6)] .
  moreover have "PathMatchCondition (route env ing ''/'' s) = PrefixMatchCondition ''/''"
    by (simp add: route_def ContainsAny_def Let_def)
  ultimately show ?thesis
    by (simp add: Run_def host)
qed

theorem default_backend_route_witness:
  "route (example_env [example_default_backend []]) (example_default_backend []) ''/'' example_service
     \<in> set (routes_at (virtualhosts (Run (example_env [example_default_backend []]) emptyBuilder)) ''*'')"
proof -
  let ?ing = "example_default_backend []"
  let ?env = "example_env [?ing]"
  have h1: "?ing \<in> set (ingresses ?env)"
    by (simp add: example_env_def)
  have h2: "TLS (Spec ?ing) = []" "Rules (Spec ?ing) = []" "spec_Backend (Spec ?ing) = Some echo_backend"
    by (simp_all add: example_default_backend_def)
  have h3: "lookupService ?env \<lparr>nn_Namespace = Namespace ?ing, nn_Name = ServiceName echo_backend\<rparr>
      (ServicePort echo_backend) = Some example_service"
    by (simp add: example_env_def echo_backend_def)
  have h4: "TLSRequired ?env ?ing \<or> HTTPAllowed ?env ?ing"
    by (simp add: example_env_def example_default_backend_def)
  from default_backend_route [OF h1 h2 h3 h4, of emptyBuilder]
  show ?thesis by blast
qed

text \<open>
  C7 as stated fails: for an ingress annotated \<open>kubernetes.io/ingress.allow-http: "false"\<close>
  (and not requiring TLS), with no TLS block, a default backend only and a service
  that resolves, the plaintext map has no entry for \<open>*\<close> after the run.
\<close>

theorem default_backend_route_counterexample:
  "example_default_backend [(''kubernetes.io/ingress.allow-http'', ''false'')]
      \<in> set (ingresses (example_env [example_default_backend [(''kubernetes.io/ingress.allow-http'', ''false'')]])) \<and>
   TLS (Spec (example_default_backend [(''kubernetes.io/ingress.allow-http'', ''false'')])) = [] \<and>
   Rules (Spec (example_default_backend [(''kubernetes.io/ingress.allow-http'', ''false'')])) = [] \<and>
   spec_Backend (Spec (example_default_backend [(''kubernetes.io/ingress.allow-http'', ''false'')])) = Some echo_backend \<and>
   lookupService (example_env [example_default_backend [(''kubernetes.io/ingress.allow-http'', ''false'')]])
      \<lparr>nn_Namespace = ''default'', nn_Name = ''echo''\<rparr> (IntVal 80) = Some example_service \<and>
   virtualhosts (Run (example_env [example_default_backend [(''kubernetes.io/ingress.allow-http'', ''false'')]])
      emptyBuilder) ''*'' = None"
  by (simp add: example_env_def example_default_backend_def echo_backend_def Run_def
      computeIngresses_def computeSecureVirtualhosts_def rulesFromSpec_def defaultBackendRule_def
      computeIngressRule_def Contains_single httppaths_def computeIngressRule_path_def
      stringOrDefault_def Let_def emptyBuilder_def)

text \<open>
  C1.  Run on a builder with no secure virtual host: for an ingress of the snapshot,
  a rule of its effective rule set whose host has no wildcard character, and a path
  entry of the rule whose service resolves, the built route is attached to the secure
  virtual host of the rule's normalised host \<open>H\<close> after the run if and only if \<open>H\<close> is not
  the default host \<open>*\<close> and some TLS block of the snapshot whose secret was looked up
  successfully and whose delegation was permitted lists \<open>H\<close>.
\<close>

theorem secure_route_attachment:
  assumes "securevirtualhosts b = Map.empty"
    and "ing \<in> set (ingresses env)" and "rule \<in> set (rulesFromSpec (Spec ing))"
    and "\<not> Contains (Host rule) ''*''" and "hp \<in> set (httppaths rule)"
    and "lookupService env \<lparr>nn_Namespace = Namespace ing, nn_Name = ServiceName (Backend hp)\<rparr>
           (ServicePort (Backend hp)) = Some s"
  shows "route env ing (stringOrDefault (Path hp) ''/'') s
        \<in> set (routes_at (securevirtualhosts (Run env b)) (rule_host rule)) \<longleftrightarrow>
      rule_host rule \<noteq> ''*'' \<and> tls_host_resolved env (rule_host rule)"
proof
  let ?r = "route env ing (stringOrDefault (Path hp) ''/'') s"
  let ?bA = "computeSecureVirtualhosts env b"
  have domA: "dom (securevirtualhosts ?bA) = {h. tls_host_resolved env h}"
    using assms(1) by (simp add: computeSecureVirtualhosts_effect)
  have g: "grows ?bA (Run env b)"
    unfolding Run_def by (rule computeIngresses_grows)
  {
    assume a: "?r \<in> set (routes_at (securevirtualhosts (Run env b)) (rule_host rule))"
    then have "routes_at (securevirtualhosts (Run env b)) (rule_host rule) \<noteq> []"
      by auto
    then have "rule_host rule \<in> dom (securevirtualhosts (Run env b))"
      by (rule routes_at_nonempty_dom)
    then have res: "tls_host_resolved env (rule_host rule)"
      using g domA unfolding grows_def by simp
    have "routes_at (securevirtualhosts (Run env b)) ''*'' = routes_at (securevirtualhosts b) ''*''"
      using g unfolding grows_def by (simp add: computeSecureVirtualhosts_effect)
    then have "routes_at (securevirtualhosts (Run env b)) ''*'' = []"
      using assms(1) by (simp add: routes_at_def)
    then have "rule_host rule \<noteq> ''*''"
      using a by auto
    then show "rule_host rule \<noteq> ''*'' \<and> tls_host_resolved env (rule_host rule)"
      using res by simp
  }
  {
    assume a: "rule_host rule \<noteq> ''*'' \<and> tls_host_resolved env (rule_host rule)"
    have "path_route env ing hp = Some ?r"
      using assms(6) by (simp add: path_route_def)
    then have built: "?r \<in> set (built_routes env ing rule)"
      using assms(5) by (rule path_route_built [rotated])
    have "rule_host rule \<in> dom (securevirtualhosts ?bA)"
      using a domA by simp
    then show "?r \<in> set (routes_at (securevirtualhosts (Run env b)) (rule_host rule))"
      unfolding Run_def
      using computeIngresses_attaches(2) [OF assms(2,3,4) built] a by blast
  }
qed


theorem secure_route_attachment_witness:
  "route (example_env [example_tls_ingress]) example_tls_ingress ''/v[0-9]+'' example_service
     \<in> set (routes_at (securevirtualhosts (Run (example_env [example_tls_ingress]) emptyBuilder)) ''a.example.com'')"
proof -
  let ?env = "example_env [example_tls_ingress]"
  let ?hp = "\<lparr>Path = ''/v[0-9]+'', Backend = echo_backend\<rparr>"
  have h1: "securevirtualhosts emptyBuilder = Map.empty"
    by (simp add: emptyBuilder_def)
  have h2: "example_tls_ingress \<in> set (ingresses ?env)"
    by (simp add: example_env_def)
  have h3: "example_rule \<in> set (rulesFromSpec (Spec example_tls_ingress))"
    by (simp add: rulesFromSpec_def example_tls_ingress_def)
  have h4: "\<not> Contains (Host example_rule) ''*''"
    by (simp add: Contains_single example_rule_def)
  have h5: "?hp \<in> set (httppaths example_rule)"
    by (simp add: httppaths_def example_rule_def)
  have h6: "lookupService ?env \<lparr>nn_Namespace = Namespace example_tls_ingress,
      nn_Name = ServiceName (Backend ?hp)\<rparr> (ServicePort (Backend ?hp)) = Some example_service"
    by (simp add: example_env_def echo_backend_def)
  have host: "rule_host example_rule = ''a.example.com''"
    by (simp add: rule_host_def example_rule_def)
  have res: "tls_host_resolved ?env ''a.example.com''"
    by (simp add: tls_host_resolved_def tls_ok_def example_env_def example_tls_ingress_def)
  have path: "stringOrDefault (Path ?hp) ''/'' = ''/v[0-9]+''"
    by (simp add: stringOrDefault_def)
  from secure_route_attachment [OF h1 h2 h3 h4 h5 h6] host res path
  show ?thesis by simp
qed

text \<open>The hosts phase B can add to the plaintext map.\<close>

lemma rules_virtualhosts_dom:
  "dom (virtualhosts (foldl (computeIngressRule env ing) b rules)) \<subseteq>
     dom (virtualhosts b) \<union> {rule_host rule | rule. rule \<in> set rules \<and> \<not> Contains (Host rule) ''*''}"
proof (induction rules arbitrary: b)
  case Nil
  then show ?case by simp
next
  case (Cons rule rules)
  show ?case
    using Cons [of "computeIngressRule env ing b rule"] rule_virtualhosts_dom [of env ing b rule]
    by auto
qed

lemma ingresses_virtualhosts_dom:
  "dom (virtualhosts (foldl (\<lambda>b ing. foldl (computeIngressRule env ing) b (rulesFromSpec (Spec ing))) b ings)) \<subseteq>
     dom (virtualhosts b) \<union>
     {rule_host rule | ing rule. ing \<in> set ings \<and> rule \<in> set (rulesFromSpec (Spec ing)) \<and>
        \<not> Contains (Host rule) ''*''}"
proof (induction ings arbitrary: b)
  case Nil
  then show ?case by simp
next
  case (Cons ing ings)
  show ?case
    using Cons [of "foldl (computeIngressRule env ing) b (rulesFromSpec (Spec ing))"]
      rules_virtualhosts_dom [of env ing b "rulesFromSpec (Spec ing)"]
    by auto blast+
qed

text \<open>
  C3 (amended).  Phase B inserts no host into the secure map.  Every host of the
  plaintext map after the run was in the map before, or is the reserved default host
  \<open>*\<close>, or is the host of a rule of the snapshot and has no wildcard character.
\<close>

theorem wildcard_hosts_rejected:
  "dom (securevirtualhosts (computeIngresses env b)) = dom (securevirtualhosts b) \<and>
   (\<forall>h \<in> dom (virtualhosts (Run env b)).
      h \<in> dom (virtualhosts b) \<or> h = ''*'' \<or>
      (CHR ''*'' \<notin> set h \<and>
       (\<exists>ing \<in> set (ingresses env). \<exists>rule \<in> set (rulesFromSpec (Spec ing)). Host rule = h)))"
proof (intro conjI ballI)
  show "dom (securevirtualhosts (computeIngresses env b)) = dom (securevirtualhosts b)"
    using computeIngresses_grows [of b env] by (simp add: grows_def)
next
  fix h
  assume "h \<in> dom (virtualhosts (Run env b))"
  then have "h \<in> dom (virtualhosts b) \<union>
     {rule_host rule | ing rule. ing \<in> set (ingresses env) \<and> rule \<in> set (rulesFromSpec (Spec ing)) \<and>
        \<not> Contains (Host rule) ''*''}"
    using ingresses_virtualhosts_dom [of env "computeSecureVirtualhosts env b" "ingresses env"]
    unfolding Run_def computeIngresses_def
    by (auto simp: computeSecureVirtualhosts_effect)
  then show "h \<in> dom (virtualhosts b) \<or> h = ''*'' \<or>
      (CHR ''*'' \<notin> set h \<and>
       (\<exists>ing \<in> set (ingresses env). \<exists>rule \<in> set (rulesFromSpec (Spec ing)). Host rule = h))"
    by (auto simp: rule_host_def Contains_single split: if_splits)
qed

text \<open>
  C3 as stated fails.  For an ingress with a rule whose host is empty and a TLS block
  with a valid secret that lists \<open>*.example.com\<close>, the plaintext map has the key \<open>*\<close>
  and the secure map has the key \<open>*.example.com\<close> after the run.
\<close>

theorem wildcard_hosts_counterexample:
  "virtualhosts (Run (example_env [example_tls_ingress]) emptyBuilder) ''*'' \<noteq> None \<and>
   CHR ''*'' \<in> set ''*'' \<and>
   securevirtualhosts (Run (example_env [example_tls_ingress]) emptyBuilder) ''*.example.com'' \<noteq> None \<and>
   CHR ''*'' \<in> set ''*.example.com''"
  by (simp add: example_env_def example_tls_ingress_def example_rule_def echo_backend_def Run_def
      computeIngresses_def computeSecureVirtualhosts_def rulesFromSpec_def defaultBackendRule_def
      computeIngressRule_def Contains_single httppaths_def computeIngressRule_path_def
      stringOrDefault_def Let_def emptyBuilder_def computeSecureVirtualhosts_tls_def
      computeSecureVirtualhosts_host_def lookupSecureVirtualHost_def lookupVirtualHost_def addRoute_def)

theorem wildcard_hosts_rejected_witness:
  "''a.example.com'' \<in> dom (virtualhosts (Run (example_env [example_tls_ingress]) emptyBuilder)) \<and>
   (\<exists>ing \<in> set (ingresses (example_env [example_tls_ingress])).
      \<exists>rule \<in> set (rulesFromSpec (Spec ing)). Host rule = ''a.example.com'')"
proof -
  let ?env = "example_env [example_tls_ingress]"
  have mem: "''a.example.com'' \<in> dom (virtualhosts (Run ?env emptyBuilder))"
    by (simp add: dom_def example_env_def example_tls_ingress_def example_rule_def echo_backend_def Run_def
      computeIngresses_def computeSecureVirtualhosts_def rulesFromSpec_def defaultBackendRule_def
      computeIngressRule_def Contains_single httppaths_def computeIngressRule_path_def
      stringOrDefault_def Let_def emptyBuilder_def computeSecureVirtualhosts_tls_def
      computeSecureVirtualhosts_host_def lookupSecureVirtualHost_def lookupVirtualHost_def addRoute_def)
  have fresh: "''a.example.com'' \<notin> dom (virtualhosts emptyBuilder)" "''a.example.com'' \<noteq> ''*''"
    by (simp_all add: emptyBuilder_def)
  from wildcard_hosts_rejected [of ?env emptyBuilder] mem fresh
  show ?thesis by blast
qed

text \<open>
  A TLS block that fails leaves both maps as they were, so phase A computes the secure
  map that the blocks that pass would compute alone.
\<close>

lemma same_hosts_refl: "same_hosts b b"
  by (simp add: same_hosts_def)

lemma host_step_same:
  "same_hosts b b' \<Longrightarrow>
     same_hosts (computeSecureVirtualhosts_host env ing sec b host)
       (computeSecureVirtualhosts_host env ing sec b' host)"
  by (auto simp: same_hosts_def computeSecureVirtualhosts_host_def lookupSecureVirtualHost_def
      Let_def split: option.splits)

lemma hosts_fold_same:
  "same_hosts b b' \<Longrightarrow>
     same_hosts (foldl (computeSecureVirtualhosts_host env ing sec) b hosts)
       (foldl (computeSecureVirtualhosts_host env ing sec) b' hosts)"
  by (induction hosts arbitrary: b b') (simp_all add: host_step_same)

lemma tls_step_same:
  "same_hosts b b' \<Longrightarrow>
     same_hosts (computeSecureVirtualhosts_tls env ing b tls) (computeSecureVirtualhosts_tls env ing b' tls)"
  using hosts_fold_same [of b b']
  by (auto simp: computeSecureVirtualhosts_tls_def Let_def same_hosts_def split: sum.splits)

lemma tls_step_failed_same:
  "\<not> tls_ok env ing tls \<Longrightarrow> same_hosts b b' \<Longrightarrow>
     same_hosts (computeSecureVirtualhosts_tls env ing b tls) b'"
  by (simp add: same_hosts_def tls_step_failed)

lemma tls_fold_filter_same:
  "same_hosts b b' \<Longrightarrow>
     same_hosts (foldl (computeSecureVirtualhosts_tls env ing) b blocks)
       (foldl (computeSecureVirtualhosts_tls env ing) b' (filter (tls_ok env ing) blocks))"
  by (induction blocks arbitrary: b b') (simp_all add: tls_step_same tls_step_failed_same)

lemma ingresses_fold_filter_same:
  "same_hosts b b' \<Longrightarrow>
     same_hosts
       (foldl (\<lambda>b ing. foldl (computeSecureVirtualhosts_tls env ing) b (TLS (Spec ing))) b ings)
       (foldl (\<lambda>b ing. foldl (computeSecureVirtualhosts_tls env ing) b
          (filter (tls_ok env ing) (TLS (Spec ing)))) b' ings)"
  by (induction ings arbitrary: b b') (simp_all add: tls_fold_filter_same)

lemma tls_step_diagnostics:
  "length (diagnostics (computeSecureVirtualhosts_tls env ing b tls)) =
     length (diagnostics b) + (if tls_ok env ing tls then 0 else 1)"
  by (auto simp: computeSecureVirtualhosts_tls_def tls_ok_def Let_def hosts_fold split: sum.splits)

lemma tls_fold_diagnostics:
  "length (diagnostics (foldl (computeSecureVirtualhosts_tls env ing) b blocks)) =
     length (diagnostics b) + length (filter (\<lambda>tls. \<not> tls_ok env ing tls) blocks)"
  by (induction blocks arbitrary: b) (simp_all add: tls_step_diagnostics)

lemma ingresses_fold_diagnostics:
  "length (diagnostics (foldl (\<lambda>b ing. foldl (computeSecureVirtualhosts_tls env ing) b (TLS (Spec ing))) b ings)) =
     length (diagnostics b) +
     sum_list (map (\<lambda>ing. length (filter (\<lambda>tls. \<not> tls_ok env ing tls) (TLS (Spec ing)))) ings)"
  by (induction ings arbitrary: b) (simp_all add: tls_fold_diagnostics)

text \<open>
  C6.  A TLS block whose secret lookup fails or whose delegation is not permitted
  leaves both maps unchanged and appends one diagnostic that carries the ingress's
  name and namespace and the secret's name.  Phase A as a whole computes the secure
  map that the blocks that pass both checks compute alone, and records one diagnostic
  for each block that does not.
\<close>

theorem failed_tls_block_skipped:
  "(\<not> tls_ok env ing tls \<longrightarrow>
      securevirtualhosts (computeSecureVirtualhosts_tls env ing b tls) = securevirtualhosts b \<and>
      virtualhosts (computeSecureVirtualhosts_tls env ing b tls) = virtualhosts b \<and>
      (\<exists>e. diagnostics (computeSecureVirtualhosts_tls env ing b tls) = diagnostics b @ [e] \<and>
           log_name e = Name ing \<and> log_namespace e = Namespace ing \<and>
           log_secret e = NamespacedNameFrom env (SecretName tls) (Namespace ing))) \<and>
   securevirtualhosts (computeSecureVirtualhosts env b) =
     securevirtualhosts
       (foldl (\<lambda>b ing. foldl (computeSecureVirtualhosts_tls env ing) b
          (filter (tls_ok env ing) (TLS (Spec ing)))) b (ingresses env)) \<and>
   length (diagnostics (computeSecureVirtualhosts env b)) =
     length (diagnostics b) +
     sum_list (map (\<lambda>ing. length (filter (\<lambda>tls. \<not> tls_ok env ing tls) (TLS (Spec ing)))) (ingresses env))"
proof (intro conjI impI)
  assume f: "\<not> tls_ok env ing tls"
  show "securevirtualhosts (computeSecureVirtualhosts_tls env ing b tls) = securevirtualhosts b"
    "virtualhosts (computeSecureVirtualhosts_tls env ing b tls) = virtualhosts b"
    "\<exists>e. diagnostics (computeSecureVirtualhosts_tls env ing b tls) = diagnostics b @ [e] \<and>
           log_name e = Name ing \<and> log_namespace e = Namespace ing \<and>
           log_secret e = NamespacedNameFrom env (SecretName tls) (Namespace ing)"
    using tls_step_failed [OF f] by blast+
next
  show "securevirtualhosts (computeSecureVirtualhosts env b) =
     securevirtualhosts
       (foldl (\<lambda>b ing. foldl (computeSecureVirtualhosts_tls env ing) b
          (filter (tls_ok env ing) (TLS (Spec ing)))) b (ingresses env))"
    using ingresses_fold_filter_same [OF same_hosts_refl, of env b "ingresses env"]
    by (simp add: same_hosts_def computeSecureVirtualhosts_def)
next
  show "length (diagnostics (computeSecureVirtualhosts env b)) =
     length (diagnostics b) +
     sum_list (map (\<lambda>ing. length (filter (\<lambda>tls. \<not> tls_ok env ing tls) (TLS (Spec ing)))) (ingresses env))"
    by (simp add: computeSecureVirtualhosts_def ingresses_fold_diagnostics)
qed

theorem failed_tls_block_skipped_witness:
  "securevirtualhosts (computeSecureVirtualhosts_tls (example_env [example_tls_ingress]) example_tls_ingress
       emptyBuilder \<lparr>Hosts = [''b.example.com''], SecretName = ''missing''\<rparr>) = Map.empty \<and>
   dom (securevirtualhosts (computeSecureVirtualhosts (example_env [example_tls_ingress]) emptyBuilder)) =
     {''*.example.com'', ''a.example.com''} \<and>
   length (diagnostics (computeSecureVirtualhosts (example_env [example_tls_ingress]) emptyBuilder)) = 1"
proof -
  let ?env = "example_env [example_tls_ingress]"
  let ?tls = "\<lparr>Hosts = [''b.example.com''], SecretName = ''missing''\<rparr>"
  note skipped = failed_tls_block_skipped [of ?env example_tls_ingress ?tls emptyBuilder]
  have bad: "\<not> tls_ok ?env example_tls_ingress ?tls"
    by (simp add: tls_ok_def example_env_def)
  have good: "tls_ok ?env example_tls_ingress \<lparr>Hosts = [''*.example.com'', ''a.example.com''], SecretName = ''cert''\<rparr>"
    by (simp add: tls_ok_def example_env_def example_tls_ingress_def)
  have blocks: "TLS (Spec example_tls_ingress) =
      [?tls, \<lparr>Hosts = [''*.example.com'', ''a.example.com''], SecretName = ''cert''\<rparr>]"
    by (simp add: example_tls_ingress_def)
  have ings: "ingresses ?env = [example_tls_ingress]"
    by (simp add: example_env_def)
  from skipped bad have a: "securevirtualhosts (computeSecureVirtualhosts_tls ?env example_tls_ingress emptyBuilder ?tls)
      = securevirtualhosts emptyBuilder"
    by blast
  from skipped have "securevirtualhosts (computeSecureVirtualhosts ?env emptyBuilder) =
     securevirtualhosts
       (foldl (\<lambda>b ing. foldl (computeSecureVirtualhosts_tls ?env ing) b
          (filter (tls_ok ?env ing) (TLS (Spec ing)))) emptyBuilder (ingresses ?env))"
    by blast
  then have "dom (securevirtualhosts (computeSecureVirtualhosts ?env emptyBuilder)) =
      dom (securevirtualhosts (computeSecureVirtualhosts_tls ?env example_tls_ingress emptyBuilder
        \<lparr>Hosts = [''*.example.com'', ''a.example.com''], SecretName = ''cert''\<rparr>))"
    using bad good by (simp add: ings blocks)
  then have b: "dom (securevirtualhosts (computeSecureVirtualhosts ?env emptyBuilder)) =
      {''*.example.com'', ''a.example.com''}"
    using tls_step_ok(1) [OF good, of emptyBuilder] by (simp add: emptyBuilder_def)
  from skipped have "length (diagnostics (computeSecureVirtualhosts ?env emptyBuilder)) =
     length (diagnostics emptyBuilder) +
     sum_list (map (\<lambda>ing. length (filter (\<lambda>tls. \<not> tls_ok ?env ing tls) (TLS (Spec ing)))) (ingresses ?env))"
    by blast
  then have c: "length (diagnostics (computeSecureVirtualhosts ?env emptyBuilder)) = 1"
    using bad good by (simp add: ings blocks emptyBuilder_def)
  from a b c show ?thesis
    by (simp add: emptyBuilder_def)
qed

end
